theory Spec2Isabelle
  imports Complex_Main
begin

section \<open>Data model (types.ts)\<close>

text \<open>
  JavaScript numbers that carry musical time, gain or position are modelled as \<open>real\<close>;
  array indices, bar numbers, track numbers and pattern lengths are natural numbers.
  An optional field (\<open>notes?\<close>, \<open>isMuted?\<close>, ...) is an \<open>option\<close>, \<open>None\<close> standing for
  \<open>undefined\<close>. An element of a \<open>steps\<close> array is an \<open>int option\<close>: \<open>None\<close> is the
  \<open>undefined\<close> that JavaScript yields for a hole or for a read past the end of the array.
\<close>

record Sample =
  sample_name :: string
  sample_url :: string

record Note =
  note_id :: string
  pitch :: int
  start :: real
  duration :: real
  velocity :: real

record EQState =
  low :: real
  mid :: real
  high :: real
  lowFrequency :: real
  highFrequency :: real

datatype EffectType = Reverb | Delay | Chorus | Distortion | Filter | Compressor

datatype FilterKind = lowpass | highpass | bandpass

datatype EffectParams =
    ReverbParams real real
  | DelayParams real real real
  | ChorusParams real real real real
  | DistortionParams real real
  | FilterParams FilterKind real real int
  | CompressorParams real real real real

record EffectState =
  fx_id :: string
  fx_type :: EffectType
  enabled :: bool
  params :: EffectParams

record ChannelState =
  ch_id :: string
  ch_name :: string
  sample :: Sample
  steps :: "int option list"
  ch_notes :: "Note list option"
  volume :: real
  pan :: real
  cutItself :: bool
  ch_eq :: EQState
  effects :: "EffectState option list"
  isAudioClipChannel :: "bool option"
  isMuted :: "bool option"
  isSoloed :: "bool option"

record Pattern =
  pat_id :: string
  pat_name :: string
  channels :: "ChannelState list"
  pat_length :: nat

text \<open>
  \<open>Playlist = Map<string, string>\<close> with keys \<open>"track:bar"\<close>. A JavaScript \<open>Map\<close> iterates in
  insertion order, so the playlist is an association list. The key string
  \<open>`${track}:${bar}`\<close> is represented by the pair of numbers it is built from and parsed
  back into by \<open>key.split(':').map(Number)\<close>.
\<close>

type_synonym PlaylistKey = "nat \<times> nat"
type_synonym Playlist = "(PlaylistKey \<times> string) list"

record AudioClip =
  clip_id :: string
  clip_channelId :: string
  clip_sample :: Sample
  clip_track :: nat
  clip_startBar :: real
  clip_durationInBars :: real
  clip_trimStartBars :: real
  clip_trimDurationBars :: real

datatype QuantizeSnapValue = Q1_64 | Q1_32 | Q1_16 | Q1_8 | Q1_4 | Q1_2 | QNone

text \<open>\<open>Partial<ChannelState>\<close>: every field may be absent.\<close>

record ChannelPartial =
  new_id :: "string option"
  new_name :: "string option"
  new_sample :: "Sample option"
  new_steps :: "int option list option"
  new_notes :: "Note list option"
  new_volume :: "real option"
  new_pan :: "real option"
  new_cutItself :: "bool option"
  new_eq :: "EQState option"
  new_effects :: "EffectState option list option"
  new_isAudioClipChannel :: "bool option"
  new_isMuted :: "bool option"
  new_isSoloed :: "bool option"

section \<open>JavaScript primitives used by the code\<close>

definition truthy :: "bool option \<Rightarrow> bool" where
  \<comment> \<open>\<open>!!x\<close> for an optional boolean\<close>
  "truthy b = (b = Some True)"

definition js_get :: "'a option list \<Rightarrow> nat \<Rightarrow> 'a option" where
  \<comment> \<open>\<open>xs[i]\<close>: \<open>undefined\<close> past the end\<close>
  "js_get xs i = (if i < length xs then xs ! i else None)"

definition js_set :: "'a option list \<Rightarrow> nat \<Rightarrow> 'a option \<Rightarrow> 'a option list" where
  \<comment> \<open>\<open>xs[i] = v\<close>: an assignment past the end extends the array, leaving holes\<close>
  "js_set xs i v =
     (if i < length xs then xs[i := v]
      else xs @ replicate (i - length xs) None @ [v])"

definition findIndex :: "('a \<Rightarrow> bool) \<Rightarrow> 'a list \<Rightarrow> nat option" where
  \<comment> \<open>\<open>Array.prototype.findIndex\<close>; \<open>None\<close> is the result \<open>-1\<close>\<close>
  "findIndex P xs = (if \<exists>x \<in> set xs. P x then Some (length (takeWhile (\<lambda>x. \<not> P x) xs)) else None)"

definition map_get :: "('k \<times> 'v) list \<Rightarrow> 'k \<Rightarrow> 'v option" where
  \<comment> \<open>\<open>Map.prototype.get\<close>\<close>
  "map_get m k = map_of m k"

fun map_set :: "('k \<times> 'v) list \<Rightarrow> 'k \<Rightarrow> 'v \<Rightarrow> ('k \<times> 'v) list" where
  \<comment> \<open>\<open>Map.prototype.set\<close>: an existing key keeps its position, a new key goes last\<close>
  "map_set [] k v = [(k, v)]"
| "map_set ((k', v') # m) k v = (if k' = k then (k, v) # m else (k', v') # map_set m k v)"

definition first_some :: "('a \<Rightarrow> 'b option) \<Rightarrow> 'a list \<Rightarrow> 'b option" where
  \<comment> \<open>a \<open>for\<close> loop over \<open>xs\<close> left by \<open>break\<close> at the first index that produces a result\<close>
  "first_some f xs = (case List.find (\<lambda>x. f x \<noteq> None) xs of None \<Rightarrow> None | Some x \<Rightarrow> f x)"

definition digit_char :: "nat \<Rightarrow> char" where
  "digit_char d = ''0123456789'' ! d"

fun decimal :: "nat \<Rightarrow> string" where
  \<comment> \<open>a non-negative integer inside a template literal\<close>
  "decimal n = (if n < 10 then [digit_char n] else decimal (n div 10) @ [digit_char (n mod 10)])"

declare decimal.simps [simp del]

definition find_pattern :: "Pattern list \<Rightarrow> string \<Rightarrow> Pattern option" where
  \<comment> \<open>\<open>patterns.find(p => p.id === patternId)\<close>\<close>
  "find_pattern patterns patternId = List.find (\<lambda>p. pat_id p = patternId) patterns"

section \<open>Undo/redo history (App.tsx, useHistory)\<close>

record 'a History =
  past :: "'a list"
  present :: 'a
  future :: "'a list"

definition useHistory :: "'a \<Rightarrow> 'a History" where
  "useHistory initialState = \<lparr>past = [], present = initialState, future = []\<rparr>"

text \<open>
  \<open>set\<close>: the parameter \<open>stringify\<close> is \<open>JSON.stringify\<close> on the state type; a plain value
  \<open>v\<close> passed as \<open>newPresent\<close> is the constant function \<open>\<lambda>_. v\<close>.
\<close>

definition set_state ::
  "('a \<Rightarrow> string) \<Rightarrow> ('a \<Rightarrow> 'a) \<Rightarrow> bool \<Rightarrow> 'a History \<Rightarrow> 'a History" where
  "set_state stringify newPresent fromHistory currentState =
     (let newPresentValue = newPresent (present currentState) in
      if stringify newPresentValue = stringify (present currentState) then currentState
      else if fromHistory then currentState\<lparr>present := newPresentValue\<rparr>
      else \<lparr>past = past currentState @ [present currentState],
            present = newPresentValue,
            future = []\<rparr>)"

definition setInitial :: "'a \<Rightarrow> 'a History \<Rightarrow> 'a History" where
  "setInitial initialState currentState = \<lparr>past = [], present = initialState, future = []\<rparr>"

text \<open>
  \<open>canUndo\<close> and \<open>canRedo\<close> are computed when the component renders, from the state it
  renders.
\<close>

definition canUndo :: "'a History \<Rightarrow> bool" where
  "canUndo state = (length (past state) > 0)"

definition canRedo :: "'a History \<Rightarrow> bool" where
  "canRedo state = (length (future state) > 0)"

text \<open>
  \<open>undo\<close> and \<open>redo\<close> are closed over \<open>canUndo\<close> and \<open>canRedo\<close>: their updaters test the value
  captured at the render that created them, not the state they are applied to. That captured
  value is the first argument below. The stored values are optional: \<open>None\<close> is the
  \<open>undefined\<close> that the code reads from an empty array when the captured value is stale
  (\<open>[].slice(0, -1)\<close> and \<open>[].slice(1)\<close> are empty).
\<close>

definition undo :: "bool \<Rightarrow> 'a option History \<Rightarrow> 'a option History" where
  "undo canUndo_closure currentState =
     (if \<not> canUndo_closure then currentState
      else \<lparr>past = take (length (past currentState) - 1) (past currentState),
            present = (if length (past currentState) = 0 then None
                       else js_get (past currentState) (length (past currentState) - 1)),
            future = present currentState # future currentState\<rparr>)"

definition redo :: "bool \<Rightarrow> 'a option History \<Rightarrow> 'a option History" where
  "redo canRedo_closure currentState =
     (if \<not> canRedo_closure then currentState
      else \<lparr>past = past currentState @ [present currentState],
            present = js_get (future currentState) 0,
            future = drop 1 (future currentState)\<rparr>)"

text \<open>
  The calls that one run of an event handler makes on the functions returned by the hook.
  They all go through the functions of the latest render, so their updaters, applied one
  after the other, share the \<open>canUndo\<close> and \<open>canRedo\<close> of the state the handler started from;
  the component renders again before the next event. \<open>set\<close> does not read either. The
  handlers of the application (the keydown handler and the undo and redo buttons) make one
  \<open>undo\<close> or \<open>redo\<close> call each.
\<close>

datatype 'a HistoryCall = CallSet "'a \<Rightarrow> 'a" | CallUndo | CallRedo

definition queued ::
  "('a option \<Rightarrow> string) \<Rightarrow> 'a option History \<Rightarrow> 'a option HistoryCall
     \<Rightarrow> 'a option History \<Rightarrow> 'a option History" where
  \<comment> \<open>the updater that a call queues when the hook last rendered the state \<open>rendered\<close>\<close>
  "queued stringify rendered call =
     (case call of
        CallSet f \<Rightarrow> set_state stringify f False
      | CallUndo \<Rightarrow> undo (canUndo rendered)
      | CallRedo \<Rightarrow> redo (canRedo rendered))"

definition handle_event ::
  "('a option \<Rightarrow> string) \<Rightarrow> 'a option HistoryCall list \<Rightarrow> 'a option History \<Rightarrow> 'a option History" where
  "handle_event stringify calls state = fold (queued stringify state) calls state"

text \<open>A sequence of mutations, each one a call \<open>set(f)\<close> with the default \<open>fromHistory = false\<close>.\<close>

definition mutate :: "('a \<Rightarrow> string) \<Rightarrow> ('a \<Rightarrow> 'a) list \<Rightarrow> 'a History \<Rightarrow> 'a History" where
  "mutate stringify fs h = fold (\<lambda>f. set_state stringify f False) fs h"

text \<open>
  The states a history can go back to, oldest first, with the present last; a list of
  mutations each of which changes the serialized present; a serialization of natural numbers
  and a history for the examples.
\<close>

definition trail :: "'a History \<Rightarrow> 'a list" where
  "trail h = past h @ [present h]"

fun effective :: "('a \<Rightarrow> string) \<Rightarrow> ('a \<Rightarrow> 'a) list \<Rightarrow> 'a \<Rightarrow> bool" where
  "effective sf [] s = True"
| "effective sf (f # fs) s = (sf (f s) \<noteq> sf s \<and> effective sf fs (f s))"

definition unary :: "nat \<Rightarrow> string" where
  "unary n = replicate n (CHR ''1'')"

definition unary_json :: "nat option \<Rightarrow> string" where
  "unary_json v = (case v of None \<Rightarrow> ''undefined'' | Some n \<Rightarrow> unary n)"

definition demo_history :: "nat option History" where
  "demo_history = \<lparr>past = [Some 0], present = Some 1, future = [Some 5]\<rparr>"

section \<open>Recording quantization (App.tsx)\<close>

fun getSnapStepFromQuantizeValue :: "QuantizeSnapValue \<Rightarrow> real" where
  "getSnapStepFromQuantizeValue Q1_2 = 8"
| "getSnapStepFromQuantizeValue Q1_4 = 4"
| "getSnapStepFromQuantizeValue Q1_8 = 2"
| "getSnapStepFromQuantizeValue Q1_16 = 1"
| "getSnapStepFromQuantizeValue Q1_32 = 0.5"
| "getSnapStepFromQuantizeValue Q1_64 = 0.25"
| "getSnapStepFromQuantizeValue QNone = 0"

definition math_round :: "real \<Rightarrow> real" where
  \<comment> \<open>\<open>Math.round\<close>: the nearest integer, a tie going towards \<open>+\<infinity>\<close>\<close>
  "math_round x = of_int \<lfloor>x + 1 / 2\<rfloor>"

definition quantizeNotes :: "Note list \<Rightarrow> QuantizeSnapValue \<Rightarrow> Note list" where
  "quantizeNotes ns snapValue =
     (let snapStep = getSnapStepFromQuantizeValue snapValue in
      if snapStep = 0 then ns
      else map (\<lambda>note. note
             \<lparr>start := math_round (start note / snapStep) * snapStep,
              duration := max snapStep (math_round (duration note / snapStep) * snapStep)\<rparr>) ns)"

section \<open>Pattern store updates (App.tsx)\<close>

text \<open>
  Each handler passes an updater function to \<open>setPatterns\<close>; the definitions below are
  these updaters, from the current pattern list to the next one.
\<close>

definition handlePatternLengthChange :: "string \<Rightarrow> nat \<Rightarrow> Pattern list \<Rightarrow> Pattern list" where
  "handlePatternLengthChange activePatternId newLength currentPatterns =
     map (\<lambda>p.
        if pat_id p \<noteq> activePatternId then p
        else
          let updatedChannels = map (\<lambda>channel.
                if truthy (isAudioClipChannel channel) then channel
                else
                  let currentSteps = steps channel in
                  if length currentSteps < newLength then
                    let diff = newLength - length currentSteps;
                        newSteps = currentSteps @ replicate diff (Some 0)
                    in channel\<lparr>steps := newSteps\<rparr>
                  else channel) (channels p)
          in p\<lparr>pat_length := newLength, channels := updatedChannels\<rparr>) currentPatterns"

definition nextStepValue :: "int option \<Rightarrow> int" where
  "nextStepValue currentStepValue =
     (if currentStepValue = Some 0 then 1
      else if currentStepValue = Some 1 then 2
      else if currentStepValue = Some 2 then 4
      else if currentStepValue = Some 4 then 3
      else if currentStepValue = Some 3 then 1
      else 1)"

definition handleStepToggle :: "string \<Rightarrow> string \<Rightarrow> nat \<Rightarrow> Pattern list \<Rightarrow> Pattern list" where
  "handleStepToggle activePatternId channelId stepIndex currentPatterns =
     map (\<lambda>p.
        if pat_id p \<noteq> activePatternId then p
        else
          let newChannels = map (\<lambda>ch.
                if ch_id ch \<noteq> channelId then ch
                else
                  let newSteps = steps ch;
                      currentStepValue = js_get newSteps stepIndex
                  in ch\<lparr>steps := js_set newSteps stepIndex (Some (nextStepValue currentStepValue))\<rparr>)
                (channels p)
          in p\<lparr>channels := newChannels\<rparr>) currentPatterns"

definition handleStepSubdivide :: "string \<Rightarrow> string \<Rightarrow> nat \<Rightarrow> Pattern list \<Rightarrow> Pattern list" where
  "handleStepSubdivide activePatternId channelId stepIndex currentPatterns =
     map (\<lambda>p.
        if pat_id p \<noteq> activePatternId then p
        else
          let newChannels = map (\<lambda>ch.
                if ch_id ch \<noteq> channelId then ch
                else ch\<lparr>steps := js_set (steps ch) stepIndex (Some 0)\<rparr>) (channels p)
          in p\<lparr>channels := newChannels\<rparr>) currentPatterns"

definition apply_partial :: "ChannelState \<Rightarrow> ChannelPartial \<Rightarrow> ChannelState" where
  \<comment> \<open>\<open>{ ...ch, ...newProps }\<close>\<close>
  "apply_partial ch newProps =
     \<lparr>ch_id = (case new_id newProps of None \<Rightarrow> ch_id ch | Some v \<Rightarrow> v),
      ch_name = (case new_name newProps of None \<Rightarrow> ch_name ch | Some v \<Rightarrow> v),
      sample = (case new_sample newProps of None \<Rightarrow> sample ch | Some v \<Rightarrow> v),
      steps = (case new_steps newProps of None \<Rightarrow> steps ch | Some v \<Rightarrow> v),
      ch_notes = (case new_notes newProps of None \<Rightarrow> ch_notes ch | Some v \<Rightarrow> Some v),
      volume = (case new_volume newProps of None \<Rightarrow> volume ch | Some v \<Rightarrow> v),
      pan = (case new_pan newProps of None \<Rightarrow> pan ch | Some v \<Rightarrow> v),
      cutItself = (case new_cutItself newProps of None \<Rightarrow> cutItself ch | Some v \<Rightarrow> v),
      ch_eq = (case new_eq newProps of None \<Rightarrow> ch_eq ch | Some v \<Rightarrow> v),
      effects = (case new_effects newProps of None \<Rightarrow> effects ch | Some v \<Rightarrow> v),
      isAudioClipChannel =
        (case new_isAudioClipChannel newProps of None \<Rightarrow> isAudioClipChannel ch | Some v \<Rightarrow> Some v),
      isMuted = (case new_isMuted newProps of None \<Rightarrow> isMuted ch | Some v \<Rightarrow> Some v),
      isSoloed = (case new_isSoloed newProps of None \<Rightarrow> isSoloed ch | Some v \<Rightarrow> Some v)\<rparr>"

definition map_index :: "(nat \<Rightarrow> 'a \<Rightarrow> 'b) \<Rightarrow> 'a list \<Rightarrow> 'b list" where
  \<comment> \<open>\<open>xs.map((x, index) => ...)\<close>\<close>
  "map_index f xs = map (\<lambda>(index, x). f index x) (zip [0..<length xs] xs)"

text \<open>
  \<open>currentPatterns[0].channels\<close> throws a \<open>TypeError\<close> on an empty pattern list; the
  updaters that read it return \<open>None\<close> there. The calls on the audio nodes inside
  \<open>handleChannelChange\<close> do not touch the pattern store and are left out.
\<close>

definition handleChannelChange ::
  "string \<Rightarrow> ChannelPartial \<Rightarrow> Pattern list \<Rightarrow> Pattern list option" where
  "handleChannelChange cid newProps currentPatterns =
     (case currentPatterns of
        [] \<Rightarrow> None
      | p0 # _ \<Rightarrow>
         (case findIndex (\<lambda>c. ch_id c = cid) (channels p0) of
            None \<Rightarrow> Some currentPatterns
          | Some channelIndex \<Rightarrow>
              Some (map (\<lambda>p. p\<lparr>channels :=
                      map_index (\<lambda>index ch.
                        if index \<noteq> channelIndex then ch else apply_partial ch newProps)
                      (channels p)\<rparr>) currentPatterns)))"

datatype MuteSolo = mute | solo

definition handleChannelMuteSoloChange ::
  "string \<Rightarrow> MuteSolo \<Rightarrow> Pattern list \<Rightarrow> Pattern list option" where
  "handleChannelMuteSoloChange channelId type currentPatterns =
     (case currentPatterns of
        [] \<Rightarrow> None
      | p0 # _ \<Rightarrow>
         (case findIndex (\<lambda>c. ch_id c = channelId) (channels p0) of
            None \<Rightarrow> Some currentPatterns
          | Some channelIndex \<Rightarrow>
              let currentChannelState = channels p0 ! channelIndex;
                  newMutedState0 = truthy (isMuted currentChannelState);
                  newSoloState0 = truthy (isSoloed currentChannelState);
                  newMutedState1 =
                    (if type = mute then \<not> truthy (isMuted currentChannelState) else newMutedState0);
                  newSoloState1 =
                    (if type = mute \<and> newMutedState1 then False else newSoloState0);
                  newSoloState =
                    (if type = solo then \<not> truthy (isSoloed currentChannelState) else newSoloState1);
                  newMutedState =
                    (if type = solo \<and> newSoloState then False else newMutedState1)
              in Some (map (\<lambda>p. p\<lparr>channels :=
                      map_index (\<lambda>index ch.
                        if index \<noteq> channelIndex then ch
                        else ch\<lparr>isMuted := Some newMutedState, isSoloed := Some newSoloState\<rparr>)
                      (channels p)\<rparr>) currentPatterns)))"

definition handleAddChannel :: "ChannelState \<Rightarrow> Pattern list \<Rightarrow> Pattern list" where
  \<comment> \<open>\<open>newChannel\<close> is the result of \<open>createNewChannel\<close>, built before the update\<close>
  "handleAddChannel newChannel currentPatterns =
     map (\<lambda>p. p\<lparr>channels := channels p @ [newChannel]\<rparr>) currentPatterns"


section \<open>Default channels (constants.ts)\<close>

definition createInitialSteps :: "nat \<Rightarrow> int option list" where
  "createInitialSteps n = replicate n (Some 0)"

definition initialSample :: "string \<Rightarrow> Sample" where
  "initialSample nm = \<lparr>sample_name = nm, sample_url = []\<rparr>"

definition defaultEQ :: EQState where
  "defaultEQ = \<lparr>low = 0, mid = 0, high = 0, lowFrequency = 250, highFrequency = 4000\<rparr>"

definition freshChannel :: "string \<Rightarrow> string \<Rightarrow> real \<Rightarrow> real \<Rightarrow> bool \<Rightarrow> ChannelState" where
  "freshChannel patternId k vol pn cutSelf =
     \<lparr>ch_id = ''ch-'' @ patternId @ ''-'' @ k,
      ch_name = ''Channel '' @ k,
      sample = initialSample (''Channel '' @ k),
      steps = createInitialSteps 128,
      ch_notes = Some [],
      volume = vol, pan = pn, cutItself = cutSelf,
      ch_eq = defaultEQ,
      effects = replicate 6 None,
      isAudioClipChannel = None,
      isMuted = Some False,
      isSoloed = Some False\<rparr>"

definition createFreshChannels :: "string \<Rightarrow> ChannelState list" where
  "createFreshChannels patternId =
     [freshChannel patternId ''1'' 0 0 False,
      freshChannel patternId ''2'' 0 0 False,
      freshChannel patternId ''3'' 0 0 False,
      freshChannel patternId ''4'' (-10) 0 True,
      freshChannel patternId ''5'' 0 0 True,
      freshChannel patternId ''6'' (-5) 0.1 False]"

definition createInitialPattern :: "string \<Rightarrow> Pattern" where
  \<comment> \<open>the argument is the id \<open>`pattern-${Date.now()}`\<close>\<close>
  "createInitialPattern patternId =
     \<lparr>pat_id = patternId, pat_name = ''Pattern 1'',
      channels = createFreshChannels patternId, pat_length = 16\<rparr>"

definition createNewPattern :: "string \<Rightarrow> string \<Rightarrow> ChannelState list option \<Rightarrow> Pattern" where
  \<comment> \<open>the first argument is the id \<open>`pattern-${Date.now()}-${Math.random()}`\<close>\<close>
  "createNewPattern patternId name channelsToClone =
     (let newChannels =
        (case channelsToClone of
           Some cs \<Rightarrow>
             map_index (\<lambda>index channel.
                 channel\<lparr>ch_id := ''ch-'' @ patternId @ ''-'' @ decimal (index + 1),
                         steps := replicate (length (steps channel)) (Some 0),
                         ch_notes := Some []\<rparr>) cs
         | None \<Rightarrow> createFreshChannels patternId)
      in \<lparr>pat_id = patternId, pat_name = name, channels = newChannels, pat_length = 16\<rparr>)"

text \<open>
  \<open>handleAddPattern\<close> (App.tsx): the new pattern store and the new active pattern id. The
  first argument is the id drawn for the new pattern.
\<close>

definition handleAddPattern :: "string \<Rightarrow> string \<Rightarrow> Pattern list \<Rightarrow> Pattern list \<times> string" where
  "handleAddPattern patternId activePatternId patterns =
     (let newPatternName = ''Pattern '' @ decimal (length patterns + 1);
          currentActivePattern = find_pattern patterns activePatternId;
          newPattern = createNewPattern patternId newPatternName
                         (map_option channels currentActivePattern)
      in (patterns @ [newPattern], pat_id newPattern))"

section \<open>Playlist placement (SongMode, handleGridClick)\<close>

text \<open>
  The loop over \<open>newPlaylist.entries()\<close> deletes the entry it is visiting, which a JavaScript
  \<open>Map\<close> allows without disturbing the rest of the iteration: it is a filter. When the brush
  pattern does not exist the handler returns before \<open>onPlaylistChange\<close>, and the playlist
  stays as it is.
\<close>

definition handleGridClick ::
  "Pattern list \<Rightarrow> string \<Rightarrow> Playlist \<Rightarrow> nat \<Rightarrow> nat \<Rightarrow> Playlist" where
  "handleGridClick patterns brushPatternId playlist track bar =
     (case find_pattern patterns brushPatternId of
        None \<Rightarrow> playlist
      | Some brushPattern \<Rightarrow>
          let lengthInBars = real (pat_length brushPattern) / 16;
              newPlaylist = filter (\<lambda>((entryTrack, entryBar), patternId).
                 \<not> (entryTrack = track \<and>
                    (case find_pattern patterns patternId of
                       None \<Rightarrow> False
                     | Some existingPattern \<Rightarrow>
                         let existingLengthInBars = real (pat_length existingPattern) / 16;
                             newStart = real bar;
                             newEnd = real bar + lengthInBars;
                             existingStart = real entryBar;
                             existingEnd = real entryBar + existingLengthInBars
                         in newStart < existingEnd \<and> newEnd > existingStart))) playlist
          in map_set newPlaylist (track, bar) brushPatternId)"

text \<open>A sequence of grid clicks, each with its brush pattern, against one pattern store.\<close>

fun place_all :: "Pattern list \<Rightarrow> (string \<times> nat \<times> nat) list \<Rightarrow> Playlist \<Rightarrow> Playlist" where
  "place_all patterns [] playlist = playlist"
| "place_all patterns ((brushPatternId, track, bar) # clicks) playlist =
     place_all patterns clicks (handleGridClick patterns brushPatternId playlist track bar)"

section \<open>Time model and live song-mode scheduling (App.tsx)\<close>

datatype AudioCall =
    ReleaseAll string real
  | TriggerAttack string real

text \<open>
  \<open>ReleaseAll n t\<close> is \<open>sampler.releaseAll(t)\<close> and \<open>TriggerAttack n t\<close> is
  \<open>sampler.triggerAttack("C3", t)\<close> on the sampler registered under the sample name \<open>n\<close>.
  The parameter \<open>audioNodes\<close> of the live scheduler tells for which sample names
  \<open>audioNodes.current\<close> holds a sampler; \<open>noteDuration\<close> is \<open>Tone.Time('16n').toSeconds()\<close>.
\<close>

definition secondsPer16th :: "real \<Rightarrow> real" where
  "secondsPer16th bpm = 60 / bpm / 4"

definition transportSwing :: "real \<Rightarrow> real" where
  \<comment> \<open>the value the swing effect assigns to \<open>Tone.Transport.swing\<close>\<close>
  "transportSwing swing = (if swing > 0.01 then swing else 0)"

text \<open>
  Modelled from the spec: the time at which the transport of the audio library (Tone.js, not
  part of the sources) fires the callback of 16th step \<open>step\<close>; the spec gives it as the
  step's offset, an odd step coming later by the swing amount times half a step.
\<close>

definition transportStepTime :: "real \<Rightarrow> real \<Rightarrow> nat \<Rightarrow> real" where
  "transportStepTime bpm swingAmount step =
     real step * secondsPer16th bpm
       + (if odd step then swingAmount * (secondsPer16th bpm / 2) else 0)"

definition triggerStep ::
  "(string \<Rightarrow> bool) \<Rightarrow> real \<Rightarrow> real \<Rightarrow> int option \<Rightarrow> ChannelState \<Rightarrow> AudioCall list" where
  "triggerStep audioNodes noteDuration time stepValue channel =
     (if truthy (isAudioClipChannel channel) then []
      else if (case ch_notes channel of None \<Rightarrow> False | Some ns \<Rightarrow> length ns > 0) then []
      else case stepValue of
          None \<Rightarrow> []
        | Some v \<Rightarrow>
            if v > 0 then
              if audioNodes (sample_name (sample channel)) then
                (if cutItself channel then [ReleaseAll (sample_name (sample channel)) time] else [])
                @ (if v = 1 then [TriggerAttack (sample_name (sample channel)) time]
                   else
                     let subdivisions = (if v = 3 then 3 else v);
                         subNoteDuration = noteDuration / real_of_int subdivisions
                     in map (\<lambda>i. TriggerAttack (sample_name (sample channel))
                                    (time + real i * subNoteDuration))
                          [0..<nat subdivisions])
              else []
            else [])"

definition candidateAt ::
  "Playlist \<Rightarrow> Pattern list \<Rightarrow> nat \<Rightarrow> nat \<Rightarrow> nat \<Rightarrow> (Pattern \<times> nat) option" where
  \<comment> \<open>the body of the inner loop of \<open>songSequenceCallback\<close>\<close>
  "candidateAt currentPlaylist currentPatterns currentBar track searchBar =
     (case map_get currentPlaylist (track, searchBar) of
        None \<Rightarrow> None
      | Some patternId \<Rightarrow>
          if patternId = [] then None
          else
            (case find_pattern currentPatterns patternId of
               None \<Rightarrow> None
             | Some candidatePattern \<Rightarrow>
                 let patternLengthInBars = real (pat_length candidatePattern) / 16 in
                 if real currentBar < real searchBar + patternLengthInBars
                 then Some (candidatePattern, searchBar)
                 else None))"

definition resolveActivePattern ::
  "Playlist \<Rightarrow> Pattern list \<Rightarrow> nat \<Rightarrow> (Pattern \<times> nat) option" where
  \<comment> \<open>the two nested \<open>for\<close> statements: tracks 0 to 31 upward, start bars from the current bar downward\<close>
  "resolveActivePattern currentPlaylist currentPatterns currentBar =
     first_some (\<lambda>track.
        first_some (candidateAt currentPlaylist currentPatterns currentBar track)
          (rev [0..<Suc currentBar]))
       [0..<32]"

definition songSequenceCallback ::
  "(string \<Rightarrow> bool) \<Rightarrow> real \<Rightarrow> Pattern list \<Rightarrow> Playlist \<Rightarrow> real \<Rightarrow> nat \<Rightarrow> AudioCall list" where
  "songSequenceCallback audioNodes noteDuration currentPatterns currentPlaylist time step =
     (let currentBar = step div 16;
          stepInBar = step mod 16
      in case resolveActivePattern currentPlaylist currentPatterns currentBar of
           None \<Rightarrow> []
         | Some (patternToPlay, patternStartBar) \<Rightarrow>
             let stepInPattern = (currentBar - patternStartBar) * 16 + stepInBar
             in concat (map (\<lambda>channel.
                   let stepValue =
                         (if length (steps channel) = 0 then None
                          else js_get (steps channel) (stepInPattern mod length (steps channel)))
                   in triggerStep audioNodes noteDuration time stepValue channel)
                 (channels patternToPlay)))"

definition songLengthSteps :: nat where
  "songLengthSteps = 72 * 16"

definition liveSongStep ::
  "(string \<Rightarrow> bool) \<Rightarrow> real \<Rightarrow> real \<Rightarrow> Pattern list \<Rightarrow> Playlist \<Rightarrow> nat \<Rightarrow> AudioCall list" where
  \<comment> \<open>what the song sequence does at one of its steps, at the tempo and swing set on the transport\<close>
  "liveSongStep audioNodes bpm swing currentPatterns currentPlaylist step =
     (if step < songLengthSteps then
        songSequenceCallback audioNodes (secondsPer16th bpm) currentPatterns currentPlaylist
          (transportStepTime bpm (transportSwing swing) step) step
      else [])"

definition attacks :: "AudioCall list \<Rightarrow> AudioCall list" where
  "attacks calls = filter (\<lambda>c. case c of TriggerAttack _ _ \<Rightarrow> True | _ \<Rightarrow> False) calls"

section \<open>Offline export (exportService.ts)\<close>

text \<open>
  The export schedules all its calls up front. Each scheduled call is listed with the
  \<open>globalStepIndex\<close> computed for it (the step index itself in the pattern export). The
  audio-clip players of the song export only enter through the song's end bar.
\<close>

definition exportPatternToWav :: "Pattern \<Rightarrow> real \<Rightarrow> real \<Rightarrow> (nat \<times> AudioCall) list" where
  "exportPatternToWav pattern bpm swing =
     (let secondsPer16th = (60 / bpm) / 4;
          patternDuration = real (pat_length pattern) * secondsPer16th
      in if patternDuration \<le> 0 then []
         else
           let swingDelay = swing * (secondsPer16th / 2);
               samplers = map (\<lambda>c. sample_name (sample c))
                            (filter (\<lambda>c. sample_url (sample c) \<noteq> []) (channels pattern))
           in concat (map (\<lambda>channel.
                if sample_name (sample channel) \<notin> set samplers then []
                else concat (map_index (\<lambda>stepIndex stepValue.
                       case stepValue of
                         None \<Rightarrow> []
                       | Some v \<Rightarrow>
                           if stepIndex \<ge> pat_length pattern \<or> v \<le> 0 then []
                           else
                             let time0 = real stepIndex * secondsPer16th;
                                 time = (if swing > 0 \<and> stepIndex mod 2 \<noteq> 0
                                         then time0 + swingDelay else time0)
                             in map (Pair stepIndex)
                                  (if v = 1 then [TriggerAttack (sample_name (sample channel)) time]
                                   else
                                     let subdivisions = (if v = 3 then 3 else v);
                                         subNoteDuration = secondsPer16th / real_of_int subdivisions
                                     in map (\<lambda>i. TriggerAttack (sample_name (sample channel))
                                                    (time + real i * subNoteDuration))
                                          [0..<nat subdivisions]))
                     (steps channel))) (channels pattern)))"

definition songEndBar :: "Pattern list \<Rightarrow> Playlist \<Rightarrow> AudioClip list \<Rightarrow> real" where
  "songEndBar patterns playlist audioClips =
     fold (\<lambda>clip e. max e (clip_startBar clip + clip_trimDurationBars clip)) audioClips
       (fold (\<lambda>((track, bar), patternId) e.
                case find_pattern patterns patternId of
                  None \<Rightarrow> e
                | Some pattern \<Rightarrow> max e (real bar + real (pat_length pattern) / 16))
          playlist 0)"

definition renderSongToBuffer ::
  "Pattern list \<Rightarrow> Playlist \<Rightarrow> AudioClip list \<Rightarrow> real \<Rightarrow> real \<Rightarrow> (nat \<times> AudioCall) list" where
  "renderSongToBuffer patterns playlist audioClips bpm swing =
     (let secondsPerBar = (60 / bpm) * 4;
          songDuration = songEndBar patterns playlist audioClips * secondsPerBar
      in if songDuration \<le> 0 then []
         else
           let secondsPer16th = (60 / bpm) / 4;
               swingDelay = swing * (secondsPer16th / 2);
               allChannels = concat (map channels patterns);
               samplers = map (\<lambda>c. sample_name (sample c))
                            (filter (\<lambda>c. \<not> truthy (isAudioClipChannel c) \<and> sample_url (sample c) \<noteq> [])
                               allChannels)
           in concat (map (\<lambda>((track, bar), patternId).
                case find_pattern patterns patternId of
                  None \<Rightarrow> []
                | Some pattern \<Rightarrow>
                    let patternStartTimeSeconds = real bar * secondsPerBar
                    in concat (map (\<lambda>channel.
                         if truthy (isAudioClipChannel channel) then []
                         else if sample_name (sample channel) \<notin> set samplers then []
                         else concat (map_index (\<lambda>stepIndex stepValue.
                                case stepValue of
                                  None \<Rightarrow> []
                                | Some v \<Rightarrow>
                                    if stepIndex \<ge> pat_length pattern \<or> v \<le> 0 then []
                                    else
                                      let noteTimeInPattern = real stepIndex * secondsPer16th;
                                          absoluteNoteTime0 = patternStartTimeSeconds + noteTimeInPattern;
                                          globalStepIndex = bar * 16 + stepIndex;
                                          absoluteNoteTime =
                                            (if swing > 0 \<and> globalStepIndex mod 2 \<noteq> 0
                                             then absoluteNoteTime0 + swingDelay else absoluteNoteTime0)
                                      in map (Pair globalStepIndex)
                                           (if v = 1
                                            then [TriggerAttack (sample_name (sample channel)) absoluteNoteTime]
                                            else
                                              let subdivisions = (if v = 3 then 3 else v);
                                                  subNoteDuration = secondsPer16th / real_of_int subdivisions
                                              in map (\<lambda>i. TriggerAttack (sample_name (sample channel))
                                                             (absoluteNoteTime + real i * subNoteDuration))
                                                   [0..<nat subdivisions]))
                              (steps channel))) (channels pattern))) playlist))"

definition exportAtStep :: "(nat \<times> AudioCall) list \<Rightarrow> nat \<Rightarrow> AudioCall list" where
  \<comment> \<open>the calls the export schedules for one global step, in scheduling order\<close>
  "exportAtStep scheduled step = map snd (filter (\<lambda>e. fst e = step) scheduled)"


section \<open>Observations used in the statements\<close>

text \<open>
  The values held at one step index by the channels with a given id in the patterns with a
  given id.
\<close>

definition stepValues :: "string \<Rightarrow> string \<Rightarrow> nat \<Rightarrow> Pattern list \<Rightarrow> int option list" where
  "stepValues activePatternId channelId stepIndex patterns =
     map (\<lambda>ch. js_get (steps ch) stepIndex)
       (filter (\<lambda>ch. ch_id ch = channelId)
          (concat (map channels (filter (\<lambda>p. pat_id p = activePatternId) patterns))))"

text \<open>
  \<open>y\<close> is a multiple of the quantize step \<open>s\<close> and no multiple of \<open>s\<close> is nearer to \<open>x\<close>.
\<close>

definition is_nearest_multiple :: "real \<Rightarrow> real \<Rightarrow> real \<Rightarrow> bool" where
  "is_nearest_multiple s x y =
     ((\<exists>k::int. y = of_int k * s) \<and> (\<forall>j::int. \<bar>y - x\<bar> \<le> \<bar>of_int j * s - x\<bar>))"

text \<open>
  A pattern store reached from the initial pattern through the handlers: the pattern is set
  to two bars, step 20 of its first channel is toggled on, and the pattern is set back to one
  bar.
\<close>

definition shrunk_patterns :: "Pattern list" where
  "shrunk_patterns =
     handlePatternLengthChange ''p'' 16
       (handleStepToggle ''p'' ''ch-p-1'' 20
          (handlePatternLengthChange ''p'' 32 [createInitialPattern ''p'']))"

text \<open>
  Mute and solo are not both set on a channel.
\<close>

definition exclusive :: "ChannelState \<Rightarrow> bool" where
  "exclusive ch = (\<not> (truthy (isMuted ch) \<and> truthy (isSoloed ch)))"

definition all_exclusive :: "Pattern list \<Rightarrow> bool" where
  "all_exclusive ps = list_all (\<lambda>p. list_all exclusive (channels p)) ps"

text \<open>
  The mixer settings of a channel, and pattern stores whose channel lists are parallel: all
  patterns have the same number of channels, with the same mixer settings at each index.
\<close>

definition mixer ::
  "ChannelState \<Rightarrow> real \<times> real \<times> EQState \<times> EffectState option list \<times> bool option \<times> bool option" where
  "mixer ch = (volume ch, pan ch, ch_eq ch, effects ch, isMuted ch, isSoloed ch)"

definition parallel :: "Pattern list \<Rightarrow> bool" where
  "parallel ps = list_all (\<lambda>p. list_all (\<lambda>q. map mixer (channels p) = map mixer (channels q)) ps) ps"

text \<open>
  The update \<open>g\<close> applied to the channel at index \<open>i\<close> of every pattern, nothing else changed.
\<close>

definition at_index :: "nat \<Rightarrow> (ChannelState \<Rightarrow> ChannelState) \<Rightarrow> Pattern list \<Rightarrow> Pattern list" where
  "at_index i g ps = map (\<lambda>p. p\<lparr>channels := (channels p)[i := g (channels p ! i)]\<rparr>) ps"

text \<open>
  A small pattern store of two patterns with two channels each, the second channel muted.
\<close>

definition demo_channel :: "string \<Rightarrow> bool \<Rightarrow> ChannelState" where
  "demo_channel cid muted =
     (freshChannel ''x'' ''1'' 0 0 False)
       \<lparr>ch_id := cid, steps := [Some 1, Some 0], isMuted := Some muted\<rparr>"

definition demo_A :: Pattern where
  "demo_A = \<lparr>pat_id = ''A'', pat_name = ''A'',
              channels = [demo_channel ''a1'' False, demo_channel ''a2'' True], pat_length = 16\<rparr>"

definition demo_B :: Pattern where
  "demo_B = \<lparr>pat_id = ''B'', pat_name = ''B'',
              channels = [demo_channel ''b1'' False, demo_channel ''b2'' True], pat_length = 16\<rparr>"

definition demo_store :: "Pattern list" where
  "demo_store = [demo_A, demo_B]"

definition volume_props :: "real \<Rightarrow> ChannelPartial" where
  \<comment> \<open>the object \<open>{ volume: v }\<close>\<close>
  "volume_props v =
     \<lparr>new_id = None, new_name = None, new_sample = None, new_steps = None, new_notes = None,
      new_volume = Some v, new_pan = None, new_cutItself = None, new_eq = None,
      new_effects = None, new_isAudioClipChannel = None, new_isMuted = None,
      new_isSoloed = None\<rparr>"

text \<open>
  The pattern store after \<open>Add pattern\<close> on the initial store: the initial pattern and a second
  pattern cloned from it, which is then the active pattern shown in the editor.
\<close>

definition two_patterns :: "Pattern list" where
  "two_patterns =
     fst (handleAddPattern ''pattern-2-0.5'' ''pattern-1'' [createInitialPattern ''pattern-1''])"

text \<open>
  The pair \<open>(newMutedState, newSoloState)\<close> that a mute or solo toggle computes from the
  channel of the first pattern.
\<close>

definition toggled_flags :: "MuteSolo \<Rightarrow> ChannelState \<Rightarrow> bool \<times> bool" where
  "toggled_flags t c =
     (if t = mute then (\<not> truthy (isMuted c), truthy (isMuted c) \<and> truthy (isSoloed c))
      else (truthy (isSoloed c) \<and> truthy (isMuted c), \<not> truthy (isSoloed c)))"

text \<open>
  A playlist entry covers bar \<open>b\<close>: its pattern exists and \<open>b\<close> lies in
  \<open>[startBar, startBar + length / 16)\<close>.
\<close>

definition covers :: "Pattern list \<Rightarrow> PlaylistKey \<times> string \<Rightarrow> nat \<Rightarrow> bool" where
  "covers patterns entry b =
     (case find_pattern patterns (snd entry) of
        None \<Rightarrow> False
      | Some p \<Rightarrow> snd (fst entry) \<le> b \<and> real b < real (snd (fst entry)) + real (pat_length p) / 16)"

text \<open>
  The bar range of an existing entry and the range \<open>[bar, bar + newLengthInBars)\<close> of a new
  placement have a point in common.
\<close>

definition ranges_intersect :: "Pattern list \<Rightarrow> nat \<Rightarrow> real \<Rightarrow> PlaylistKey \<times> string \<Rightarrow> bool" where
  "ranges_intersect patterns bar newLengthInBars entry =
     (case find_pattern patterns (snd entry) of
        None \<Rightarrow> False
      | Some p \<Rightarrow>
          (\<exists>x::real. real (snd (fst entry)) \<le> x \<and> x < real (snd (fst entry)) + real (pat_length p) / 16
                   \<and> real bar \<le> x \<and> x < real bar + newLengthInBars))"

text \<open>
  No two placements on one track cover a common bar.
\<close>

definition no_overlap :: "Pattern list \<Rightarrow> Playlist \<Rightarrow> bool" where
  "no_overlap patterns playlist =
     (\<forall>e1\<in>set playlist. \<forall>e2\<in>set playlist.
        e1 \<noteq> e2 \<and> fst (fst e1) = fst (fst e2) \<longrightarrow>
        \<not> (\<exists>b. covers patterns e1 b \<and> covers patterns e2 b))"

text \<open>
  The test under which the loop of \<open>handleGridClick\<close> deletes an entry.
\<close>

definition click_removes :: "Pattern list \<Rightarrow> nat \<Rightarrow> nat \<Rightarrow> real \<Rightarrow> PlaylistKey \<times> string \<Rightarrow> bool" where
  "click_removes patterns track bar lengthInBars entry =
     (fst (fst entry) = track \<and>
      (case find_pattern patterns (snd entry) of
         None \<Rightarrow> False
       | Some existingPattern \<Rightarrow>
           real bar < real (snd (fst entry)) + real (pat_length existingPattern) / 16
         \<and> real bar + lengthInBars > real (snd (fst entry))))"

text \<open>
  Patterns and a playlist for the examples: A is four bars long, B two bars, C one bar, and A
  is placed on track 0 at bar 0.
\<close>

definition pat :: "string \<Rightarrow> nat \<Rightarrow> Pattern" where
  "pat pid len = \<lparr>pat_id = pid, pat_name = pid, channels = [], pat_length = len\<rparr>"

definition demo_patterns :: "Pattern list" where
  "demo_patterns = [pat ''A'' 64, pat ''B'' 32, pat ''C'' 16]"

definition demo_playlist :: Playlist where
  "demo_playlist = [((0, 0), ''A'')]"

text \<open>
  The playlist holds, on \<open>track\<close> at \<open>startBar\<close>, the id of the existing pattern \<open>p\<close>, with
  \<open>startBar \<le> currentBar\<close> and \<open>startBar + length / 16 > currentBar\<close>.
\<close>

definition placement_matches :: "Playlist \<Rightarrow> Pattern list \<Rightarrow> nat \<Rightarrow> nat \<Rightarrow> nat \<Rightarrow> Pattern \<Rightarrow> bool" where
  "placement_matches playlist patterns currentBar track startBar p =
     (\<exists>patternId. map_get playlist (track, startBar) = Some patternId \<and> patternId \<noteq> []
        \<and> find_pattern patterns patternId = Some p
        \<and> startBar \<le> currentBar
        \<and> real startBar + real (pat_length p) / 16 > real currentBar)"

text \<open>
  The sampler (by sample name) an audio call goes to.
\<close>

fun call_sampler :: "AudioCall \<Rightarrow> string" where
  "call_sampler (ReleaseAll n t) = n"
| "call_sampler (TriggerAttack n t) = n"

text \<open>
  The song of the resolution example: pattern A, 32 steps long, at track 0 bar 0 and pattern
  B, 16 steps long, at track 0 bar 4.
\<close>

definition song_AB :: "Pattern list" where
  "song_AB = [demo_A\<lparr>pat_length := 32\<rparr>, demo_B]"

definition playlist_AB :: Playlist where
  "playlist_AB = [((0, 0), ''A''), ((0, 4), ''B'')]"

text \<open>
  The song export, taken apart for the proofs: the sub-hit expansion of one step value, the
  calls of one step, of one channel and of one playlist entry, and the sample names for which
  the export creates a sampler.
\<close>

definition hits :: "string \<Rightarrow> real \<Rightarrow> real \<Rightarrow> int \<Rightarrow> AudioCall list" where
  "hits nm noteDuration time v =
     (if v = 1 then [TriggerAttack nm time]
      else map (\<lambda>i. TriggerAttack nm (time + real i * (noteDuration / real_of_int v))) [0..<nat v])"

definition export_step_calls ::
  "real \<Rightarrow> real \<Rightarrow> string \<Rightarrow> nat \<Rightarrow> nat \<Rightarrow> nat \<Rightarrow> int option \<Rightarrow> AudioCall list" where
  "export_step_calls bpm swing nm len bar stepIndex stepValue =
     (case stepValue of
        None \<Rightarrow> []
      | Some v \<Rightarrow>
          if stepIndex \<ge> len \<or> v \<le> 0 then []
          else hits nm ((60 / bpm) / 4)
                 (if swing > 0 \<and> (bar * 16 + stepIndex) mod 2 \<noteq> 0
                  then real bar * ((60 / bpm) * 4) + real stepIndex * ((60 / bpm) / 4)
                       + swing * (((60 / bpm) / 4) / 2)
                  else real bar * ((60 / bpm) * 4) + real stepIndex * ((60 / bpm) / 4)) v)"

definition export_samplers :: "Pattern list \<Rightarrow> string list" where
  "export_samplers patterns =
     map (\<lambda>c. sample_name (sample c))
       (filter (\<lambda>c. \<not> truthy (isAudioClipChannel c) \<and> sample_url (sample c) \<noteq> [])
          (concat (map channels patterns)))"

definition export_channel_calls ::
  "real \<Rightarrow> real \<Rightarrow> string list \<Rightarrow> nat \<Rightarrow> nat \<Rightarrow> ChannelState \<Rightarrow> (nat \<times> AudioCall) list" where
  "export_channel_calls bpm swing samplers len bar channel =
     (if truthy (isAudioClipChannel channel) then []
      else if sample_name (sample channel) \<notin> set samplers then []
      else concat (map_index (\<lambda>stepIndex stepValue.
             map (Pair (bar * 16 + stepIndex))
               (export_step_calls bpm swing (sample_name (sample channel)) len bar stepIndex stepValue))
             (steps channel)))"

definition export_entry_calls ::
  "Pattern list \<Rightarrow> real \<Rightarrow> real \<Rightarrow> PlaylistKey \<times> string \<Rightarrow> (nat \<times> AudioCall) list" where
  "export_entry_calls patterns bpm swing entry =
     (case find_pattern patterns (snd entry) of
        None \<Rightarrow> []
      | Some pattern \<Rightarrow>
          concat (map (export_channel_calls bpm swing (export_samplers patterns)
                         (pat_length pattern) (snd (fst entry))) (channels pattern)))"

text \<open>
  The project states on which export and live playback are compared. The playlist has unique
  keys, on tracks below 32, with non-empty pattern ids; every pattern's length is a multiple of
  16; no channel has piano-roll notes; a channel that is not an audio-clip channel has at least
  as many steps as its pattern is long, and the live scheduler holds a sampler for its sample
  exactly when the export creates one; and at most one placement, over all tracks, covers any
  bar.
\<close>

definition song_wellformed :: "(string \<Rightarrow> bool) \<Rightarrow> Pattern list \<Rightarrow> Playlist \<Rightarrow> bool" where
  "song_wellformed audioNodes patterns playlist =
     (distinct (map fst playlist)
    \<and> (\<forall>e\<in>set playlist. fst (fst e) < 32 \<and> snd e \<noteq> [])
    \<and> (\<forall>p\<in>set patterns. 16 dvd pat_length p
          \<and> (\<forall>c\<in>set (channels p).
                (case ch_notes c of None \<Rightarrow> True | Some ns \<Rightarrow> ns = [])
              \<and> (\<not> truthy (isAudioClipChannel c) \<longrightarrow>
                    pat_length p \<le> length (steps c)
                  \<and> (audioNodes (sample_name (sample c))
                       \<longleftrightarrow> sample_name (sample c) \<in> set (export_samplers patterns)))))
    \<and> (\<forall>e1\<in>set playlist. \<forall>e2\<in>set playlist. \<forall>b.
           covers patterns e1 b \<and> covers patterns e2 b \<longrightarrow> e1 = e2))"

text \<open>
  Every placement ends within the 72 bars that the live song sequence runs through.
\<close>

definition ends_within_song :: "Pattern list \<Rightarrow> Playlist \<Rightarrow> bool" where
  "ends_within_song patterns playlist =
     (\<forall>e\<in>set playlist. \<forall>p. find_pattern patterns (snd e) = Some p \<longrightarrow>
        snd (fst e) * 16 + pat_length p \<le> songLengthSteps)"

text \<open>
  A kick pattern and a snare pattern of one bar each, once placed on two tracks at the same
  bar and once one after the other.
\<close>

definition one_shot :: "string \<Rightarrow> string \<Rightarrow> int option list \<Rightarrow> ChannelState" where
  "one_shot cid nm st =
     \<lparr>ch_id = cid, ch_name = nm,
      sample = \<lparr>sample_name = nm, sample_url = nm @ ''.wav''\<rparr>,
      steps = st, ch_notes = Some [], volume = 0, pan = 0, cutItself = False,
      ch_eq = defaultEQ, effects = replicate 6 None,
      isAudioClipChannel = None, isMuted = Some False, isSoloed = Some False\<rparr>"

definition kick_snare :: "Pattern list" where
  "kick_snare =
     [\<lparr>pat_id = ''K'', pat_name = ''K'',
       channels = [one_shot ''k1'' ''kick'' ([Some 1, Some 0, Some 0, Some 2] @ replicate 12 (Some 0))],
       pat_length = 16\<rparr>,
      \<lparr>pat_id = ''S'', pat_name = ''S'',
       channels = [one_shot ''s1'' ''snare'' ([Some 1, Some 3] @ replicate 14 (Some 0))],
       pat_length = 16\<rparr>]"

definition layered_playlist :: Playlist where
  "layered_playlist = [((0, 0), ''K''), ((1, 0), ''S'')]"

definition sequential_playlist :: Playlist where
  "sequential_playlist = [((0, 0), ''K''), ((1, 1), ''S'')]"

text \<open>
  The samplers the live scheduler holds in the examples.
\<close>

definition loaded_kick_snare :: "string \<Rightarrow> bool" where
  "loaded_kick_snare n = (n = ''kick'' \<or> n = ''snare'')"

text \<open>
  The kick pattern with its channel replaced.
\<close>

definition with_channel :: "ChannelState \<Rightarrow> Pattern list" where
  "with_channel c = [(kick_snare ! 0)\<lparr>channels := [c]\<rparr>]"

section \<open>Undo and redo\<close>

lemma undo_event:
  "handle_event sf [CallUndo] h =
     (if past h = [] then h
      else \<lparr>past = butlast (past h), present = last (past h), future = present h # future h\<rparr>)"
  by (simp add: handle_event_def queued_def undo_def canUndo_def js_get_def butlast_conv_take
        last_conv_nth)

lemma redo_event:
  "handle_event sf [CallRedo] h =
     (case future h of [] \<Rightarrow> h
      | x # xs \<Rightarrow> \<lparr>past = past h @ [present h], present = x, future = xs\<rparr>)"
  by (simp add: handle_event_def queued_def redo_def canRedo_def js_get_def split: list.splits)

lemma set_event: "handle_event sf (map CallSet fs) h = mutate sf fs h"
proof -
  have "fold (queued sf r) (map CallSet fs) h = fold (\<lambda>f. set_state sf f False) fs h" for r
    by (induction fs arbitrary: h) (simp_all add: queued_def)
  then show ?thesis by (simp add: handle_event_def mutate_def)
qed

lemma set_state_trail:
  "\<exists>ys. length ys \<le> 1 \<and> trail (set_state sf f False h) = trail h @ ys \<and>
        (ys = [] \<longrightarrow> set_state sf f False h = h) \<and>
        (ys \<noteq> [] \<longrightarrow> future (set_state sf f False h) = [])"
  by (auto simp: set_state_def trail_def Let_def)

lemma mutate_trail:
  "\<exists>ys. length ys \<le> length fs \<and> trail (mutate sf fs h) = trail h @ ys \<and>
        (ys = [] \<longrightarrow> mutate sf fs h = h) \<and>
        (ys \<noteq> [] \<longrightarrow> future (mutate sf fs h) = [])"
proof (induction fs arbitrary: h)
  case Nil
  show ?case by (simp add: mutate_def)
next
  case (Cons f fs)
  obtain ys where ys: "length ys \<le> 1" "trail (set_state sf f False h) = trail h @ ys"
    "ys = [] \<longrightarrow> set_state sf f False h = h" "ys \<noteq> [] \<longrightarrow> future (set_state sf f False h) = []"
    using set_state_trail[of sf f h] by blast
  obtain zs where zs: "length zs \<le> length fs"
    "trail (mutate sf fs (set_state sf f False h)) = trail (set_state sf f False h) @ zs"
    "zs = [] \<longrightarrow> mutate sf fs (set_state sf f False h) = set_state sf f False h"
    "zs \<noteq> [] \<longrightarrow> future (mutate sf fs (set_state sf f False h)) = []"
    using Cons.IH[of "set_state sf f False h"] by blast
  have m: "mutate sf (f # fs) h = mutate sf fs (set_state sf f False h)"
    by (simp add: mutate_def)
  show ?case
    apply (rule exI[of _ "ys @ zs"])
    using ys zs by (auto simp: m)
qed

lemma undo_funpow:
  "(handle_event sf [CallUndo] ^^ n) h =
     \<lparr>past = take (length (past h) - n) (past h),
      present = hd (drop (length (past h) - n) (trail h)),
      future = tl (drop (length (past h) - n) (trail h)) @ future h\<rparr>"
proof (induction n arbitrary: h)
  case 0
  show ?case by (simp add: trail_def)
next
  case (Suc n)
  let ?U = "handle_event sf [CallUndo]"
  show ?case
  proof (cases "past h = []")
    case True
    then have "?U h = h" by (simp add: undo_event)
    then have "(?U ^^ Suc n) h = (?U ^^ n) h" by (simp add: funpow_swap1)
    then show ?thesis using True Suc.IH[of h] by simp
  next
    case False
    then obtain ps p where ps: "past h = ps @ [p]" by (metis rev_exhaust)
    have u: "?U h = \<lparr>past = ps, present = p, future = present h # future h\<rparr>"
      by (simp add: undo_event ps)
    have "(?U ^^ Suc n) h = (?U ^^ n) (?U h)" by (simp add: funpow_swap1)
    also have "\<dots> = \<lparr>past = take (length ps - n) ps,
      present = hd (drop (length ps - n) (ps @ [p])),
      future = tl (drop (length ps - n) (ps @ [p])) @ present h # future h\<rparr>"
      by (simp add: Suc.IH u trail_def)
    finally have e: "(?U ^^ Suc n) h = \<lparr>past = take (length ps - n) ps,
      present = hd (drop (length ps - n) (ps @ [p])),
      future = tl (drop (length ps - n) (ps @ [p])) @ present h # future h\<rparr>" .
    have ne: "drop (length ps - n) (ps @ [p]) \<noteq> []" by simp
    have d: "drop (length (past h) - Suc n) (trail h) = drop (length ps - n) (ps @ [p]) @ [present h]"
      by (simp add: ps trail_def)
    have t: "take (length (past h) - Suc n) (past h) = take (length ps - n) ps"
      by (simp add: ps)
    show ?thesis unfolding e d t using ne
      by (simp add: hd_append2 del: drop_append)
  qed
qed

lemma redo_funpow:
  "(handle_event sf [CallRedo] ^^ n) h =
     \<lparr>past = butlast (trail h @ take n (future h)),
      present = last (trail h @ take n (future h)),
      future = drop n (future h)\<rparr>"
proof (induction n arbitrary: h)
  case 0
  show ?case by (simp add: trail_def)
next
  case (Suc n)
  let ?R = "handle_event sf [CallRedo]"
  show ?case
  proof (cases "future h")
    case Nil
    then have "?R h = h" by (simp add: redo_event)
    then have "(?R ^^ Suc n) h = (?R ^^ n) h" by (simp add: funpow_swap1)
    then show ?thesis using Nil Suc.IH[of h] by simp
  next
    case (Cons x xs)
    have u: "?R h = \<lparr>past = past h @ [present h], present = x, future = xs\<rparr>"
      by (simp add: redo_event Cons)
    have "(?R ^^ Suc n) h = (?R ^^ n) (?R h)" by (simp add: funpow_swap1)
    then show ?thesis
      by (simp add: Suc.IH u trail_def Cons butlast_append)
  qed
qed

text \<open>Calls queued in one update, all with the closure value \<open>True\<close>.\<close>

lemma undo_batch:
  "n \<le> length (past h) \<Longrightarrow>
   fold (\<lambda>c. undo True) (replicate n c0) h = (handle_event sf [CallUndo] ^^ n) h"
proof (induction n arbitrary: h)
  case 0
  show ?case by simp
next
  case (Suc n)
  then have ne: "past h \<noteq> []" by auto
  have u: "undo True h = handle_event sf [CallUndo] h"
    using ne by (simp add: handle_event_def queued_def canUndo_def)
  have l: "n \<le> length (past (undo True h))" using Suc.prems by (simp add: undo_def)
  have "fold (\<lambda>c. undo True) (replicate (Suc n) c0) h
        = fold (\<lambda>c. undo True) (replicate n c0) (undo True h)" by simp
  also have "\<dots> = (handle_event sf [CallUndo] ^^ n) (undo True h)" by (rule Suc.IH[OF l])
  also have "\<dots> = (handle_event sf [CallUndo] ^^ Suc n) h" by (simp add: u funpow_swap1)
  finally show ?case .
qed

lemma redo_batch:
  "n \<le> length (future h) \<Longrightarrow>
   fold (\<lambda>c. redo True) (replicate n c0) h = (handle_event sf [CallRedo] ^^ n) h"
proof (induction n arbitrary: h)
  case 0
  show ?case by simp
next
  case (Suc n)
  then have ne: "future h \<noteq> []" by auto
  have u: "redo True h = handle_event sf [CallRedo] h"
    using ne by (simp add: handle_event_def queued_def canRedo_def)
  have l: "n \<le> length (future (redo True h))" using Suc.prems by (simp add: redo_def)
  have "fold (\<lambda>c. redo True) (replicate (Suc n) c0) h
        = fold (\<lambda>c. redo True) (replicate n c0) (redo True h)" by simp
  also have "\<dots> = (handle_event sf [CallRedo] ^^ n) (redo True h)" by (rule Suc.IH[OF l])
  also have "\<dots> = (handle_event sf [CallRedo] ^^ Suc n) h" by (simp add: u funpow_swap1)
  finally show ?case .
qed

lemma undo_in_one_update:
  assumes "0 < n" "n \<le> length (past h)"
  shows "handle_event sf (replicate n CallUndo) h = (handle_event sf [CallUndo] ^^ n) h"
proof -
  have c: "canUndo h" using assms by (cases "past h") (simp_all add: canUndo_def)
  have "queued sf h CallUndo = undo True" using c by (simp add: queued_def)
  then have "handle_event sf (replicate n CallUndo) h = fold (\<lambda>c. undo True) (replicate n CallUndo) h"
    unfolding handle_event_def by (induction n arbitrary: h) simp_all
  then show ?thesis using undo_batch[OF assms(2), of CallUndo sf] by simp
qed

lemma redo_in_one_update:
  assumes "0 < n" "n \<le> length (future h)"
  shows "handle_event sf (replicate n CallRedo) h = (handle_event sf [CallRedo] ^^ n) h"
proof -
  have c: "canRedo h" using assms by (cases "future h") (simp_all add: canRedo_def)
  have "queued sf h CallRedo = redo True" using c by (simp add: queued_def)
  then have "handle_event sf (replicate n CallRedo) h = fold (\<lambda>c. redo True) (replicate n CallRedo) h"
    unfolding handle_event_def by (induction n arbitrary: h) simp_all
  then show ?thesis using redo_batch[OF assms(2), of CallRedo sf] by simp
qed


lemma fresh_round_trip:
  fixes h :: "'a option History"
  assumes h: "h = mutate sf fs (useHistory s0)"
  shows "present ((handle_event sf [CallUndo] ^^ length fs) h) = s0"
    and "(handle_event sf [CallRedo] ^^ length fs) ((handle_event sf [CallUndo] ^^ length fs) h) = h"
proof -
  obtain ys where ys: "length ys \<le> length fs" "trail h = [s0] @ ys"
    "ys = [] \<longrightarrow> h = useHistory s0" "ys \<noteq> [] \<longrightarrow> future h = []"
    using mutate_trail[of fs sf "useHistory s0"] unfolding h
    by (auto simp: trail_def useHistory_def)
  have fut: "future h = []" using ys(3,4) by (cases ys) (auto simp: useHistory_def)
  have len: "length (past h) = length ys"
    using ys(2) by (metis Suc_inject length_Cons length_append_singleton trail_def append_Cons append_Nil)
  then have d: "length (past h) - length fs = 0" using ys(1) by simp
  have u: "(handle_event sf [CallUndo] ^^ length fs) h = \<lparr>past = [], present = s0, future = ys\<rparr>"
    by (simp add: undo_funpow d ys(2) fut)
  show "present ((handle_event sf [CallUndo] ^^ length fs) h) = s0" by (simp add: u)
  have "(handle_event sf [CallRedo] ^^ length fs) ((handle_event sf [CallUndo] ^^ length fs) h) =
        \<lparr>past = butlast (s0 # ys), present = last (s0 # ys), future = []\<rparr>"
    using ys(1) by (simp add: u redo_funpow trail_def)
  also have "\<dots> = h"
  proof -
    have "past h = butlast (s0 # ys)" using ys(2) by (metis butlast_snoc trail_def append_Cons append_Nil)
    moreover have "present h = last (s0 # ys)" using ys(2) by (metis last_snoc trail_def append_Cons append_Nil)
    ultimately show ?thesis using fut by simp
  qed
  finally show "(handle_event sf [CallRedo] ^^ length fs) ((handle_event sf [CallUndo] ^^ length fs) h) = h" .
qed

lemma mutate_effective:
  "effective sf fs (present h) \<Longrightarrow> fs \<noteq> [] \<Longrightarrow>
   \<exists>ys. length ys = length fs \<and> trail (mutate sf fs h) = trail h @ ys \<and> future (mutate sf fs h) = []"
proof (induction fs arbitrary: h)
  case Nil
  then show ?case by simp
next
  case (Cons f fs)
  let ?g = "set_state sf f False h"
  have g: "?g = \<lparr>past = past h @ [present h], present = f (present h), future = []\<rparr>"
    using Cons.prems by (simp add: set_state_def)
  have m: "mutate sf (f # fs) h = mutate sf fs ?g" by (simp add: mutate_def)
  show ?case
  proof (cases "fs = []")
    case True
    show ?thesis
      apply (rule exI[of _ "[f (present h)]"])
      by (simp add: m True mutate_def g trail_def)
  next
    case False
    have "effective sf fs (present ?g)" using Cons.prems by (simp add: g)
    from Cons.IH[OF this False] obtain ys where ys: "length ys = length fs"
      "trail (mutate sf fs ?g) = trail ?g @ ys" "future (mutate sf fs ?g) = []" by blast
    show ?thesis
      apply (rule exI[of _ "f (present h) # ys"])
      using ys by (simp add: m) (simp add: g trail_def)
  qed
qed

lemma mid_session_round_trip:
  fixes h :: "'a option History"
  assumes e: "effective sf fs (present h)"
  shows "present ((handle_event sf [CallUndo] ^^ length fs) (mutate sf fs h)) = present h"
    and "past ((handle_event sf [CallUndo] ^^ length fs) (mutate sf fs h)) = past h"
    and "(handle_event sf [CallRedo] ^^ length fs)
           ((handle_event sf [CallUndo] ^^ length fs) (mutate sf fs h)) = mutate sf fs h"
    and "length fs \<le> length (past (mutate sf fs h))"
    and "length fs \<le> length (future ((handle_event sf [CallUndo] ^^ length fs) (mutate sf fs h)))"
proof -
  let ?m = "mutate sf fs h"
  let ?U = "handle_event sf [CallUndo]"
  let ?R = "handle_event sf [CallRedo]"
  have "present ((?U ^^ length fs) ?m) = present h \<and> past ((?U ^^ length fs) ?m) = past h
        \<and> (?R ^^ length fs) ((?U ^^ length fs) ?m) = ?m
        \<and> length fs \<le> length (past ?m)
        \<and> length fs \<le> length (future ((?U ^^ length fs) ?m))"
  proof (cases "fs = []")
    case True
    then show ?thesis by (simp add: mutate_def)
  next
    case False
    from mutate_effective[OF e False] obtain ys where ys: "length ys = length fs"
      "trail ?m = trail h @ ys" "future ?m = []" by blast
    have ne: "ys \<noteq> []" using ys(1) False by auto
    have pm: "past ?m = past h @ butlast (present h # ys)" "present ?m = last ys"
      using ys(2) ne unfolding trail_def
      by (metis append_assoc butlast_append butlast_snoc append_Cons append_Nil list.distinct(1),
          metis last_appendR last_snoc)
    have len: "length (past ?m) - length fs = length (past h)"
      using ys(1) by (simp add: pm del: butlast.simps)
    have len2: "length fs \<le> length (past ?m)"
      using ys(1) by (simp add: pm del: butlast.simps)
    have u: "(?U ^^ length fs) ?m = \<lparr>past = past h, present = present h, future = ys\<rparr>"
      by (simp add: undo_funpow len ys(2,3)) (simp add: pm trail_def)
    have r: "(?R ^^ length fs) ((?U ^^ length fs) ?m) =
          \<lparr>past = butlast (trail h @ ys), present = last (trail h @ ys), future = []\<rparr>"
      by (simp add: u redo_funpow trail_def ys(1))
    have "\<dots> = ?m" using ys(2,3)
      by (metis (full_types) History.surjective butlast_snoc last_snoc old.unit.exhaust trail_def)
    with u r len2 ys(1) show ?thesis by simp
  qed
  then show "present ((?U ^^ length fs) ?m) = present h"
    and "past ((?U ^^ length fs) ?m) = past h"
    and "(?R ^^ length fs) ((?U ^^ length fs) ?m) = ?m"
    and "length fs \<le> length (past ?m)"
    and "length fs \<le> length (future ((?U ^^ length fs) ?m))" by simp_all
qed

lemma one_update_round_trip:
  fixes h :: "'a option History"
  assumes e: "effective sf fs (present h)"
  shows "present (handle_event sf (replicate (length fs) CallUndo) (mutate sf fs h)) = present h"
    and "handle_event sf (replicate (length fs) CallRedo)
           (handle_event sf (replicate (length fs) CallUndo) (mutate sf fs h)) = mutate sf fs h"
proof -
  let ?m = "mutate sf fs h"
  let ?n = "length fs"
  have "present (handle_event sf (replicate ?n CallUndo) ?m) = present h
      \<and> handle_event sf (replicate ?n CallRedo) (handle_event sf (replicate ?n CallUndo) ?m) = ?m"
  proof (cases "fs = []")
    case True
    then show ?thesis by (simp add: handle_event_def mutate_def)
  next
    case False
    then have n: "0 < ?n" by simp
    note M = mid_session_round_trip[OF e]
    have u: "handle_event sf (replicate ?n CallUndo) ?m = (handle_event sf [CallUndo] ^^ ?n) ?m"
      by (rule undo_in_one_update[OF n M(4)])
    have r: "handle_event sf (replicate ?n CallRedo) ((handle_event sf [CallUndo] ^^ ?n) ?m)
             = (handle_event sf [CallRedo] ^^ ?n) ((handle_event sf [CallUndo] ^^ ?n) ?m)"
      by (rule redo_in_one_update[OF n M(5)])
    show ?thesis unfolding u r using M(1,3) by simp
  qed
  then show "present (handle_event sf (replicate (length fs) CallUndo) (mutate sf fs h)) = present h"
    and "handle_event sf (replicate (length fs) CallRedo)
           (handle_event sf (replicate (length fs) CallUndo) (mutate sf fs h)) = mutate sf fs h"
    by simp_all
qed

text \<open>
  Claim C8. Starting from a history created by \<open>useHistory\<close> on any initial state and
  after any sequence of mutations, as many undo events as there were mutations bring back the
  initial state, and as many redo events then bring back the whole history as it was before
  the undos; each undo and each redo is the single call of an event handler, made through
  the functions of the render of the state it is applied to. The same holds from any history
  when each of the mutations changes the serialized present, and then also when all the
  undos, and after them all the redos, are queued in one update. The mutations may come in
  one update or in several. A mutation whose result serializes like the current present
  leaves the history unchanged, and any other mutation pushes the present onto the past and
  empties the future.
\<close>

theorem undo_redo_round_trip:
  fixes stringify :: "'a option \<Rightarrow> string"
  shows "present ((handle_event stringify [CallUndo] ^^ length fs) (mutate stringify fs (useHistory s0))) = s0
       \<and> (handle_event stringify [CallRedo] ^^ length fs)
           ((handle_event stringify [CallUndo] ^^ length fs) (mutate stringify fs (useHistory s0)))
           = mutate stringify fs (useHistory s0)
       \<and> (effective stringify fs (present h) \<longrightarrow>
            present ((handle_event stringify [CallUndo] ^^ length fs) (mutate stringify fs h)) = present h
          \<and> (handle_event stringify [CallRedo] ^^ length fs)
              ((handle_event stringify [CallUndo] ^^ length fs) (mutate stringify fs h))
              = mutate stringify fs h
          \<and> present (handle_event stringify (replicate (length fs) CallUndo) (mutate stringify fs h))
              = present h
          \<and> handle_event stringify (replicate (length fs) CallRedo)
              (handle_event stringify (replicate (length fs) CallUndo) (mutate stringify fs h))
              = mutate stringify fs h)
       \<and> handle_event stringify (map CallSet fs) h = mutate stringify fs h
       \<and> (stringify (f (present h)) = stringify (present h) \<longrightarrow> set_state stringify f False h = h)
       \<and> (stringify (f (present h)) \<noteq> stringify (present h) \<longrightarrow>
            set_state stringify f False h
              = \<lparr>past = past h @ [present h], present = f (present h), future = []\<rparr>)"
  using fresh_round_trip[OF refl, where sf = stringify and fs = fs and ?s0.0 = s0]
        mid_session_round_trip(1,3)[where sf = stringify and fs = fs and h = h]
        one_update_round_trip[where sf = stringify and fs = fs and h = h]
        set_event[of stringify fs h]
  by (simp add: set_state_def)


theorem undo_redo_round_trip_witness:
  "present ((handle_event unary_json [CallUndo] ^^ 3)
      (mutate unary_json [map_option Suc, id, map_option Suc] (useHistory (Some 0)))) = Some 0
   \<and> (handle_event unary_json [CallRedo] ^^ 3) ((handle_event unary_json [CallUndo] ^^ 3)
        (mutate unary_json [map_option Suc, id, map_option Suc] (useHistory (Some 0))))
        = \<lparr>past = [Some 0, Some 1], present = Some 2, future = []\<rparr>
   \<and> effective unary_json [map_option Suc, id, map_option Suc] (present demo_history) = False
   \<and> effective unary_json [map_option Suc, map_option Suc, map_option Suc] (present demo_history)
   \<and> present ((handle_event unary_json [CallUndo] ^^ 3)
        (mutate unary_json [map_option Suc, map_option Suc, map_option Suc] demo_history)) = Some 1
   \<and> present (handle_event unary_json [CallUndo, CallUndo, CallUndo]
        (mutate unary_json [map_option Suc, map_option Suc, map_option Suc] demo_history)) = Some 1
   \<and> unary_json (id (present demo_history)) = unary_json (Some 1)
   \<and> set_state unary_json id False demo_history = demo_history
   \<and> unary_json (map_option Suc (present demo_history)) \<noteq> unary_json (Some 1)
   \<and> set_state unary_json (map_option Suc) False demo_history
        = \<lparr>past = [Some 0, Some 1], present = Some 2, future = []\<rparr>"
proof -
  have m: "mutate unary_json [map_option Suc, id, map_option Suc] (useHistory (Some 0))
           = \<lparr>past = [Some 0, Some 1], present = Some 2, future = []\<rparr>"
    by (simp add: mutate_def set_state_def useHistory_def unary_json_def unary_def)
  have p: "present demo_history = Some 1" "past demo_history = [Some 0]"
    by (simp_all add: demo_history_def)
  have a: "unary_json (id (present demo_history)) = unary_json (Some 1)" by (simp add: p)
  have b: "unary_json (map_option Suc (present demo_history)) \<noteq> unary_json (Some 1)"
    by (simp add: p unary_json_def unary_def)
  have e: "effective unary_json [map_option Suc, id, map_option Suc] (present demo_history) = False"
          "effective unary_json [map_option Suc, map_option Suc, map_option Suc] (present demo_history)"
    by (simp_all add: p unary_json_def unary_def)
  have l: "length [map_option Suc, map_option Suc, map_option Suc] = 3"
          "length [map_option Suc, id, map_option Suc] = 3"
          "replicate 3 CallUndo = [CallUndo, CallUndo, CallUndo]"
    by (simp_all add: numeral_3_eq_3)
  note T1 = undo_redo_round_trip[where fs = "[map_option Suc, id, map_option Suc]"
              and stringify = unary_json and ?s0.0 = "Some 0" and f = id and h = demo_history,
              unfolded l]
  note T2 = undo_redo_round_trip[where fs = "[map_option Suc, map_option Suc, map_option Suc]"
              and stringify = unary_json and ?s0.0 = "Some 0" and f = "map_option Suc"
              and h = demo_history, unfolded l]
  from T1 have c1: "present ((handle_event unary_json [CallUndo] ^^ 3)
      (mutate unary_json [map_option Suc, id, map_option Suc] (useHistory (Some 0)))) = Some 0"
    "(handle_event unary_json [CallRedo] ^^ 3) ((handle_event unary_json [CallUndo] ^^ 3)
        (mutate unary_json [map_option Suc, id, map_option Suc] (useHistory (Some 0))))
        = mutate unary_json [map_option Suc, id, map_option Suc] (useHistory (Some 0))"
    by blast+
  from T1 a have c2: "set_state unary_json id False demo_history = demo_history"
    by simp
  from T2 e(2) have c3:
    "present ((handle_event unary_json [CallUndo] ^^ 3)
        (mutate unary_json [map_option Suc, map_option Suc, map_option Suc] demo_history)) = Some 1"
    "present (handle_event unary_json [CallUndo, CallUndo, CallUndo]
        (mutate unary_json [map_option Suc, map_option Suc, map_option Suc] demo_history)) = Some 1"
    by (simp_all add: p)
  from T2 b have c4: "set_state unary_json (map_option Suc) False demo_history
        = \<lparr>past = [Some 0, Some 1], present = Some 2, future = []\<rparr>"
    by (simp add: p)
  show ?thesis using c1 c2 c3 c4 a b e by (simp add: m)
qed

text \<open>
  The captured \<open>canUndo\<close> matters when one handler run queues several calls: the second of
  two undos queued in one update on a past of one entry still sees \<open>canUndo\<close> true and reads
  the present from the empty past, and an undo queued after a mutation in the first update
  of a fresh history still sees \<open>canUndo\<close> false and does nothing. No handler of the
  application queues an undo or redo together with another call.
\<close>

lemma undo_twice_in_one_update:
  "handle_event unary_json [CallUndo, CallUndo] \<lparr>past = [Some 0], present = Some 1, future = []\<rparr>
     = \<lparr>past = [], present = None, future = [Some 0, Some 1]\<rparr>"
  by (simp add: handle_event_def queued_def canUndo_def undo_def js_get_def)

lemma undo_after_set_in_one_update:
  "handle_event unary_json [CallSet (map_option Suc), CallUndo] (useHistory (Some 0))
     = \<lparr>past = [Some 0], present = Some 1, future = []\<rparr>"
  by (simp add: handle_event_def queued_def canUndo_def undo_def set_state_def useHistory_def
        unary_json_def unary_def)

section \<open>Step toggling\<close>

lemma js_get_js_set: "js_get (js_set xs i v) i = v"
  by (simp add: js_get_def js_set_def nth_append)

lemma stepValues_Nil: "stepValues a c i [] = []"
  by (simp add: stepValues_def)

lemma stepValues_Cons:
  "stepValues a c i (p # ps) =
     (if pat_id p = a
      then map (\<lambda>ch. js_get (steps ch) i) (filter (\<lambda>ch. ch_id ch = c) (channels p))
      else []) @ stepValues a c i ps"
  by (simp add: stepValues_def)

lemma toggle_channels:
  "map (\<lambda>ch. js_get (steps ch) i) (filter (\<lambda>ch. ch_id ch = c)
      (map (\<lambda>ch. if ch_id ch \<noteq> c then ch
                  else ch\<lparr>steps := js_set (steps ch) i (Some (g (js_get (steps ch) i)))\<rparr>) cs))
   = map (\<lambda>v. Some (g v)) (map (\<lambda>ch. js_get (steps ch) i) (filter (\<lambda>ch. ch_id ch = c) cs))"
  by (induction cs) (simp_all add: js_get_js_set)

lemma stepValues_toggle:
  "stepValues a c i (handleStepToggle a c i ps) = map (\<lambda>v. Some (nextStepValue v)) (stepValues a c i ps)"
proof (induction ps)
  case Nil
  show ?case by (simp add: handleStepToggle_def stepValues_Nil)
next
  case (Cons p ps)
  have h: "handleStepToggle a c i (p # ps) =
     (if pat_id p \<noteq> a then p
      else p\<lparr>channels := map (\<lambda>ch. if ch_id ch \<noteq> c then ch
                  else ch\<lparr>steps := js_set (steps ch) i (Some (nextStepValue (js_get (steps ch) i)))\<rparr>)
              (channels p)\<rparr>) # handleStepToggle a c i ps"
    by (simp add: handleStepToggle_def Let_def)
  show ?case
    unfolding h using Cons.IH
    by (simp add: stepValues_Cons toggle_channels)
qed

lemma subdivide_channels:
  "map (\<lambda>ch. js_get (steps ch) i) (filter (\<lambda>ch. ch_id ch = c)
      (map (\<lambda>ch. if ch_id ch \<noteq> c then ch
                  else ch\<lparr>steps := js_set (steps ch) i (Some 0)\<rparr>) cs))
   = map (\<lambda>v. Some 0) (map (\<lambda>ch. js_get (steps ch) i) (filter (\<lambda>ch. ch_id ch = c) cs))"
  by (induction cs) (simp_all add: js_get_js_set)

lemma stepValues_subdivide:
  "stepValues a c i (handleStepSubdivide a c i ps) = map (\<lambda>v. Some 0) (stepValues a c i ps)"
proof (induction ps)
  case Nil
  show ?case by (simp add: handleStepSubdivide_def stepValues_Nil)
next
  case (Cons p ps)
  have h: "handleStepSubdivide a c i (p # ps) =
     (if pat_id p \<noteq> a then p
      else p\<lparr>channels := map (\<lambda>ch. if ch_id ch \<noteq> c then ch
                  else ch\<lparr>steps := js_set (steps ch) i (Some 0)\<rparr>)
              (channels p)\<rparr>) # handleStepSubdivide a c i ps"
    by (simp add: handleStepSubdivide_def Let_def)
  show ?case
    unfolding h using Cons.IH
    by (simp add: stepValues_Cons subdivide_channels)
qed

lemma stepValues_toggle_funpow:
  "stepValues a c i ((handleStepToggle a c i ^^ n) ps)
     = map ((\<lambda>v. Some (nextStepValue v)) ^^ n) (stepValues a c i ps)"
proof (induction n)
  case 0
  show ?case by (simp add: map_idI)
next
  case (Suc n)
  show ?case by (simp add: stepValues_toggle Suc.IH)
qed

text \<open>
  Claim C3. On every channel the toggle addresses, and at every step index, a toggle replaces
  the step value \<open>v\<close> by \<open>nextStepValue v\<close>, which sends 0 to 1, 1 to 2, 2 to 4, 4 to 3 and
  3 to 1, so that repeated toggles run through 0, 1, 2, 4, 3, 1, 2, 4, ...; the subdivide
  reset leaves 0 there whatever the value was.
\<close>

theorem step_toggle_cycle:
  "stepValues a c i (handleStepToggle a c i ps) = map (\<lambda>v. Some (nextStepValue v)) (stepValues a c i ps)
   \<and> stepValues a c i ((handleStepToggle a c i ^^ n) ps)
       = map ((\<lambda>v. Some (nextStepValue v)) ^^ n) (stepValues a c i ps)
   \<and> nextStepValue (Some 0) = 1 \<and> nextStepValue (Some 1) = 2 \<and> nextStepValue (Some 2) = 4
   \<and> nextStepValue (Some 4) = 3 \<and> nextStepValue (Some 3) = 1
   \<and> map (\<lambda>n. ((\<lambda>v. Some (nextStepValue v)) ^^ n) (Some 0)) [0, 1, 2, 3, 4, 5, 6, 7]
       = [Some 0, Some 1, Some 2, Some 4, Some 3, Some 1, Some 2, Some 4]
   \<and> stepValues a c i (handleStepSubdivide a c i ps) = map (\<lambda>v. Some 0) (stepValues a c i ps)"
  using stepValues_toggle[of a c i ps] stepValues_toggle_funpow[of a c i n ps]
        stepValues_subdivide[of a c i ps]
  by (simp add: nextStepValue_def eval_nat_numeral)

section \<open>Quantization\<close>

lemma math_round_bounds: "x - 1 / 2 < math_round x" "math_round x \<le> x + 1 / 2"
proof -
  define k where "k = \<lfloor>x + 1 / 2\<rfloor>"
  have a: "of_int k \<le> x + 1 / 2" unfolding k_def by (rule of_int_floor_le)
  have "x + 1 / 2 < of_int (k + 1)" unfolding k_def using floor_correct[of "x + 1 / 2"] by blast
  then have b: "x + 1 / 2 < of_int k + 1" by (simp only: of_int_add of_int_1)
  have r: "math_round x = of_int k" by (simp add: math_round_def k_def)
  show "x - 1 / 2 < math_round x" unfolding r using b by linarith
  show "math_round x \<le> x + 1 / 2" unfolding r using a by linarith
qed

lemma math_round_nearest_int: "\<bar>math_round x - x\<bar> \<le> \<bar>of_int j - x\<bar>"
proof -
  define k where "k = \<lfloor>x + 1 / 2\<rfloor>"
  have r: "math_round x = of_int k" by (simp add: math_round_def k_def)
  have lo: "x - 1 / 2 < of_int k" and hi: "of_int k \<le> x + 1 / 2"
    using math_round_bounds[of x] by (simp_all add: r)
  consider "j = k" | "j \<le> k - 1" | "k + 1 \<le> j" by linarith
  then show ?thesis
  proof cases
    case 1
    then show ?thesis by (simp add: r)
  next
    case 2
    then have "(of_int j :: real) \<le> of_int (k - 1)" by (simp only: of_int_le_iff)
    then have "(of_int j :: real) \<le> of_int k - 1" by simp
    with lo hi show ?thesis unfolding r by linarith
  next
    case 3
    then have "(of_int (k + 1) :: real) \<le> of_int j" by (simp only: of_int_le_iff)
    then have "(of_int k :: real) + 1 \<le> of_int j" by simp
    with lo hi show ?thesis unfolding r by linarith
  qed
qed

lemma scale_abs:
  fixes a s x :: real
  assumes s: "0 < s"
  shows "\<bar>a * s - x\<bar> = \<bar>a - x / s\<bar> * s"
proof -
  have "a * s - x = (a - x / s) * s" using s by (simp add: left_diff_distrib)
  then have "\<bar>a * s - x\<bar> = \<bar>a - x / s\<bar> * \<bar>s\<bar>" by (simp only: abs_mult)
  then show ?thesis using s by simp
qed

lemma snap_nearest:
  assumes s: "0 < s"
  shows "is_nearest_multiple s x (math_round (x / s) * s)"
proof -
  have "\<bar>math_round (x / s) * s - x\<bar> \<le> \<bar>of_int j * s - x\<bar>" for j :: int
  proof -
    have "\<bar>math_round (x / s) - x / s\<bar> * s \<le> \<bar>of_int j - x / s\<bar> * s"
      using math_round_nearest_int[of "x / s" j] s by (simp only: mult_le_cancel_right_pos)
    then show ?thesis by (simp only: scale_abs[OF s])
  qed
  moreover have "\<exists>k::int. math_round (x / s) * s = of_int k * s"
    unfolding math_round_def by blast
  ultimately show ?thesis unfolding is_nearest_multiple_def by blast
qed

lemma snap_pos: "snapValue \<noteq> QNone \<Longrightarrow> 0 < getSnapStepFromQuantizeValue snapValue"
  by (cases snapValue) simp_all

lemma quantize_example_16:
  "quantizeNotes [\<lparr>note_id = ''n'', pitch = 60, start = 3.3, duration = 1.7, velocity = 1\<rparr>] Q1_16
     = [\<lparr>note_id = ''n'', pitch = 60, start = 3, duration = 2, velocity = 1\<rparr>]"
  by (simp add: quantizeNotes_def math_round_def)

lemma quantize_example_4:
  "quantizeNotes [\<lparr>note_id = ''n'', pitch = 60, start = 3.3, duration = 1.7, velocity = 1\<rparr>] Q1_4
     = [\<lparr>note_id = ''n'', pitch = 60, start = 4, duration = 4, velocity = 1\<rparr>]"
  by (simp add: quantizeNotes_def math_round_def)

text \<open>
  Claim C5. With the setting "None" the notes come back unchanged. With any other setting
  (steps 8, 4, 2, 1, 0.5, 0.25 for 1/2 to 1/64) every note keeps its id, pitch and velocity,
  its start becomes a nearest multiple of the quantize step, and its duration becomes the
  larger of the quantize step and a nearest multiple of it. A note with start 3.3 and
  duration 1.7 becomes (3, 2) at 1/16 and (4, 4) at 1/4.
\<close>

theorem quantize_correct:
  "quantizeNotes ns QNone = ns
   \<and> map getSnapStepFromQuantizeValue [Q1_2, Q1_4, Q1_8, Q1_16, Q1_32, Q1_64] = [8, 4, 2, 1, 0.5, 0.25]
   \<and> length (quantizeNotes ns snapValue) = length ns
   \<and> (snapValue \<noteq> QNone \<and> i < length ns \<longrightarrow>
        is_nearest_multiple (getSnapStepFromQuantizeValue snapValue)
           (start (ns ! i)) (start (quantizeNotes ns snapValue ! i))
      \<and> (\<exists>d. is_nearest_multiple (getSnapStepFromQuantizeValue snapValue) (duration (ns ! i)) d
             \<and> duration (quantizeNotes ns snapValue ! i)
                 = max (getSnapStepFromQuantizeValue snapValue) d)
      \<and> getSnapStepFromQuantizeValue snapValue \<le> duration (quantizeNotes ns snapValue ! i)
      \<and> note_id (quantizeNotes ns snapValue ! i) = note_id (ns ! i)
      \<and> pitch (quantizeNotes ns snapValue ! i) = pitch (ns ! i)
      \<and> velocity (quantizeNotes ns snapValue ! i) = velocity (ns ! i))
   \<and> quantizeNotes [\<lparr>note_id = ''n'', pitch = 60, start = 3.3, duration = 1.7, velocity = 1\<rparr>] Q1_16
       = [\<lparr>note_id = ''n'', pitch = 60, start = 3, duration = 2, velocity = 1\<rparr>]
   \<and> quantizeNotes [\<lparr>note_id = ''n'', pitch = 60, start = 3.3, duration = 1.7, velocity = 1\<rparr>] Q1_4
       = [\<lparr>note_id = ''n'', pitch = 60, start = 4, duration = 4, velocity = 1\<rparr>]"
proof -
  have a: "quantizeNotes ns QNone = ns" by (simp add: quantizeNotes_def)
  have b: "map getSnapStepFromQuantizeValue [Q1_2, Q1_4, Q1_8, Q1_16, Q1_32, Q1_64] = [8, 4, 2, 1, 0.5, 0.25]"
    by simp
  have c: "length (quantizeNotes ns snapValue) = length ns"
    by (simp add: quantizeNotes_def Let_def)
  have d: "is_nearest_multiple (getSnapStepFromQuantizeValue snapValue)
           (start (ns ! i)) (start (quantizeNotes ns snapValue ! i))
      \<and> (\<exists>d. is_nearest_multiple (getSnapStepFromQuantizeValue snapValue) (duration (ns ! i)) d
             \<and> duration (quantizeNotes ns snapValue ! i)
                 = max (getSnapStepFromQuantizeValue snapValue) d)
      \<and> getSnapStepFromQuantizeValue snapValue \<le> duration (quantizeNotes ns snapValue ! i)
      \<and> note_id (quantizeNotes ns snapValue ! i) = note_id (ns ! i)
      \<and> pitch (quantizeNotes ns snapValue ! i) = pitch (ns ! i)
      \<and> velocity (quantizeNotes ns snapValue ! i) = velocity (ns ! i)"
    if h: "snapValue \<noteq> QNone" "i < length ns"
  proof -
    let ?s = "getSnapStepFromQuantizeValue snapValue"
    have s: "0 < ?s" using h(1) by (rule snap_pos)
    have q: "quantizeNotes ns snapValue ! i = (ns ! i)
             \<lparr>start := math_round (start (ns ! i) / ?s) * ?s,
              duration := max ?s (math_round (duration (ns ! i) / ?s) * ?s)\<rparr>"
      using s h(2) by (simp add: quantizeNotes_def Let_def)
    have n1: "is_nearest_multiple ?s (start (ns ! i)) (math_round (start (ns ! i) / ?s) * ?s)"
      by (rule snap_nearest[OF s])
    have n2: "is_nearest_multiple ?s (duration (ns ! i)) (math_round (duration (ns ! i) / ?s) * ?s)"
      by (rule snap_nearest[OF s])
    have e: "\<exists>d. is_nearest_multiple ?s (duration (ns ! i)) d
             \<and> max ?s (math_round (duration (ns ! i) / ?s) * ?s) = max ?s d"
      using n2 by blast
    show ?thesis
      unfolding q using n1 e by simp
  qed
  show ?thesis
    apply (intro conjI impI)
    using a b c d quantize_example_16 quantize_example_4 by blast+
qed

theorem quantize_correct_witness:
  "Q1_8 \<noteq> QNone \<and> (0::nat) < length [\<lparr>note_id = ''n'', pitch = 60, start = 3.3, duration = 1.7, velocity = 1\<rparr>]
   \<and> is_nearest_multiple 2 3.3 4
   \<and> quantizeNotes [\<lparr>note_id = ''n'', pitch = 60, start = 3.3, duration = 1.7, velocity = 1\<rparr>] Q1_8
       = [\<lparr>note_id = ''n'', pitch = 60, start = 4, duration = 2, velocity = 1\<rparr>]"
proof -
  have q: "quantizeNotes [\<lparr>note_id = ''n'', pitch = 60, start = 3.3, duration = 1.7, velocity = 1\<rparr>] Q1_8
       = [\<lparr>note_id = ''n'', pitch = 60, start = 4, duration = 2, velocity = 1\<rparr>]"
    by (simp add: quantizeNotes_def math_round_def)
  show ?thesis
    using quantize_correct[where ns = "[\<lparr>note_id = ''n'', pitch = 60, start = 3.3, duration = 1.7, velocity = 1\<rparr>]"
             and snapValue = Q1_8 and i = 0]
    by (simp add: q)
qed

section \<open>Pattern length\<close>

lemma grow_channel:
  "map (\<lambda>channel.
          if truthy (isAudioClipChannel channel) then channel
          else if length (steps channel) < n
               then channel\<lparr>steps := steps channel @ replicate (n - length (steps channel)) (Some 0)\<rparr>
               else channel) cs ! j
   = (if truthy (isAudioClipChannel (cs ! j)) then cs ! j
      else if length (steps (cs ! j)) < n
           then (cs ! j)\<lparr>steps := steps (cs ! j) @ replicate (n - length (steps (cs ! j))) (Some 0)\<rparr>
           else cs ! j)"
  if "j < length cs"
  using that by simp

lemma handlePatternLengthChange_nth:
  assumes "k < length ps"
  shows "handlePatternLengthChange a n ps ! k =
     (if pat_id (ps ! k) \<noteq> a then ps ! k
      else (ps ! k)\<lparr>pat_length := n,
              channels := map (\<lambda>channel.
                if truthy (isAudioClipChannel channel) then channel
                else if length (steps channel) < n
                     then channel\<lparr>steps := steps channel @ replicate (n - length (steps channel)) (Some 0)\<rparr>
                     else channel) (channels (ps ! k))\<rparr>)"
  using assms by (simp add: handlePatternLengthChange_def Let_def)

text \<open>
  Against claim C7 as stated: a pattern of length 16 whose first channel still holds a hit at
  step 20 from the time the pattern was two bars long; growing it to 32 shows that hit again,
  so index 20 does not hold 0.
\<close>

theorem pattern_length_growth_counterexample:
  "pat_length (shrunk_patterns ! 0) = 16
   \<and> pat_length (handlePatternLengthChange ''p'' 32 shrunk_patterns ! 0) = 32
   \<and> js_get (steps (channels (handlePatternLengthChange ''p'' 32 shrunk_patterns ! 0) ! 0)) 20 = Some 1"
  by (simp add: shrunk_patterns_def handlePatternLengthChange_def handleStepToggle_def
        createInitialPattern_def createFreshChannels_def freshChannel_def createInitialSteps_def
        truthy_def js_get_def js_set_def nextStepValue_def Let_def)

text \<open>
  Claim C7, amended. Setting the length of the active pattern changes no other pattern and,
  in the active pattern, nothing but the length and the steps arrays. No steps array is
  truncated or changed at an index it already has. A channel that is not an audio-clip
  channel ends with \<open>max n (old length)\<close> steps, the indices from its old length up to \<open>n\<close>
  holding 0; an audio-clip channel is left as it is.
\<close>

theorem pattern_length_growth:
  assumes "k < length ps" and "j < length (channels (ps ! k))"
  shows "length (handlePatternLengthChange a n ps) = length ps
     \<and> (pat_id (ps ! k) \<noteq> a \<longrightarrow> handlePatternLengthChange a n ps ! k = ps ! k)
     \<and> (pat_id (ps ! k) = a \<longrightarrow>
          pat_length (handlePatternLengthChange a n ps ! k) = n
        \<and> pat_id (handlePatternLengthChange a n ps ! k) = a
        \<and> pat_name (handlePatternLengthChange a n ps ! k) = pat_name (ps ! k)
        \<and> length (channels (handlePatternLengthChange a n ps ! k)) = length (channels (ps ! k))
        \<and> (channels (handlePatternLengthChange a n ps ! k) ! j)
              \<lparr>steps := steps (channels (ps ! k) ! j)\<rparr> = channels (ps ! k) ! j
        \<and> take (length (steps (channels (ps ! k) ! j)))
              (steps (channels (handlePatternLengthChange a n ps ! k) ! j))
             = steps (channels (ps ! k) ! j)
        \<and> (truthy (isAudioClipChannel (channels (ps ! k) ! j)) \<longrightarrow>
              channels (handlePatternLengthChange a n ps ! k) ! j = channels (ps ! k) ! j)
        \<and> (\<not> truthy (isAudioClipChannel (channels (ps ! k) ! j)) \<longrightarrow>
              length (steps (channels (handlePatternLengthChange a n ps ! k) ! j))
                = max n (length (steps (channels (ps ! k) ! j)))
            \<and> (\<forall>i. length (steps (channels (ps ! k) ! j)) \<le> i \<and> i < n \<longrightarrow>
                   steps (channels (handlePatternLengthChange a n ps ! k) ! j) ! i = Some 0)))"
proof -
  have len: "length (handlePatternLengthChange a n ps) = length ps"
    by (simp add: handlePatternLengthChange_def)
  show ?thesis
    using assms
    by (auto simp add: len handlePatternLengthChange_nth grow_channel nth_append)
qed


theorem pattern_length_growth_witness:
  "(0::nat) < length shrunk_patterns
   \<and> (0::nat) < length (channels (shrunk_patterns ! 0))
   \<and> pat_id (shrunk_patterns ! 0) = ''p''
   \<and> \<not> truthy (isAudioClipChannel (channels (shrunk_patterns ! 0) ! 0))
   \<and> pat_length (handlePatternLengthChange ''p'' 256 shrunk_patterns ! 0) = 256
   \<and> length (steps (channels (handlePatternLengthChange ''p'' 256 shrunk_patterns ! 0) ! 0)) = 256
   \<and> take 128 (steps (channels (handlePatternLengthChange ''p'' 256 shrunk_patterns ! 0) ! 0))
        = steps (channels (shrunk_patterns ! 0) ! 0)
   \<and> steps (channels (handlePatternLengthChange ''p'' 256 shrunk_patterns ! 0) ! 0) ! 200 = Some 0"
proof -
  have a: "(0::nat) < length shrunk_patterns"
    by (simp add: shrunk_patterns_def handlePatternLengthChange_def handleStepToggle_def)
  have s: "shrunk_patterns ! 0 =
      (createInitialPattern ''p'')\<lparr>channels :=
         (freshChannel ''p'' ''1'' 0 0 False)\<lparr>steps := (replicate 128 (Some 0))[20 := Some 1]\<rparr>
           # tl (createFreshChannels ''p'')\<rparr>"
    by (simp add: shrunk_patterns_def handlePatternLengthChange_def handleStepToggle_def
        createInitialPattern_def createFreshChannels_def freshChannel_def createInitialSteps_def
        truthy_def js_get_def js_set_def nextStepValue_def Let_def)
  have b: "(0::nat) < length (channels (shrunk_patterns ! 0))" by (simp add: s)
  have c: "pat_id (shrunk_patterns ! 0) = ''p''" by (simp add: s createInitialPattern_def)
  have d: "\<not> truthy (isAudioClipChannel (channels (shrunk_patterns ! 0) ! 0))"
    by (simp add: s freshChannel_def truthy_def)
  have l: "length (steps (channels (shrunk_patterns ! 0) ! 0)) = 128" by (simp add: s)
  show ?thesis
    using pattern_length_growth[OF a b, of "''p''" 256] a b c d l
    by simp
qed

section \<open>Mute, solo and channel edits across patterns\<close>

lemma length_map_index [simp]: "length (map_index f xs) = length xs"
  by (simp add: map_index_def)

lemma nth_map_index [simp]: "j < length xs \<Longrightarrow> map_index f xs ! j = f j (xs ! j)"
  by (simp add: map_index_def)

lemma map_index_update:
  "map_index (\<lambda>index ch. if index \<noteq> i then ch else g ch) xs = xs[i := g (xs ! i)]"
  by (rule nth_equalityI) (auto simp: nth_list_update)

lemma findIndex_Cons:
  "findIndex P (x # xs) = (if P x then Some 0 else map_option Suc (findIndex P xs))"
  by (simp add: findIndex_def)

lemma findIndex_Some:
  "findIndex P xs = Some i \<Longrightarrow> i < length xs \<and> P (xs ! i) \<and> (\<forall>j<i. \<not> P (xs ! j))"
proof (induction xs arbitrary: i)
  case Nil
  then show ?case by (simp add: findIndex_def)
next
  case (Cons x xs)
  show ?case
  proof (cases "P x")
    case True
    with Cons.prems show ?thesis by (simp add: findIndex_Cons)
  next
    case False
    with Cons.prems obtain i' where i': "findIndex P xs = Some i'" "i = Suc i'"
      by (auto simp: findIndex_Cons)
    from Cons.IH[OF i'(1)] False show ?thesis
      by (auto simp: i'(2) nth_Cons' less_Suc_eq_0_disj)
  qed
qed

lemma handleChannelChange_eq:
  "handleChannelChange cid newProps (p0 # rest) =
     Some (case findIndex (\<lambda>c. ch_id c = cid) (channels p0) of
             None \<Rightarrow> p0 # rest
           | Some i \<Rightarrow> at_index i (\<lambda>ch. apply_partial ch newProps) (p0 # rest))"
  by (simp add: handleChannelChange_def at_index_def map_index_update split: option.splits)

lemma handleChannelMuteSoloChange_eq:
  "handleChannelMuteSoloChange cid t (p0 # rest) =
     Some (case findIndex (\<lambda>c. ch_id c = cid) (channels p0) of
             None \<Rightarrow> p0 # rest
           | Some i \<Rightarrow>
               at_index i (\<lambda>ch. ch\<lparr>isMuted := Some (fst (toggled_flags t (channels p0 ! i))),
                                   isSoloed := Some (snd (toggled_flags t (channels p0 ! i)))\<rparr>)
                 (p0 # rest))"
proof (cases t)
  case mute
  then show ?thesis
    by (auto simp add: handleChannelMuteSoloChange_def at_index_def map_index_update toggled_flags_def
          Let_def split: option.splits)
next
  case solo
  then show ?thesis
    by (auto simp add: handleChannelMuteSoloChange_def at_index_def map_index_update toggled_flags_def
          Let_def split: option.splits)
qed

lemma toggled_flags_exclusive: "\<not> (fst (toggled_flags t c) \<and> snd (toggled_flags t c))"
  by (auto simp: toggled_flags_def)

lemma at_index_all_exclusive:
  assumes "all_exclusive ps" and "\<And>ch. exclusive (g ch)"
  shows "all_exclusive (at_index i g ps)"
proof -
  have "list_all exclusive (cs[i := g (cs ! i)])" if "list_all exclusive cs" for cs
    using that assms(2) by (auto simp: list_all_iff dest!: set_update_subset_insert[THEN subsetD])
  then show ?thesis using assms(1)
    by (simp add: all_exclusive_def at_index_def list_all_iff) blast
qed

lemma mixer_apply_partial:
  "mixer (apply_partial ch np) =
     (case mixer ch of (v, p, e, f, m, s) \<Rightarrow>
        (case new_volume np of None \<Rightarrow> v | Some x \<Rightarrow> x,
         case new_pan np of None \<Rightarrow> p | Some x \<Rightarrow> x,
         case new_eq np of None \<Rightarrow> e | Some x \<Rightarrow> x,
         case new_effects np of None \<Rightarrow> f | Some x \<Rightarrow> x,
         case new_isMuted np of None \<Rightarrow> m | Some x \<Rightarrow> Some x,
         case new_isSoloed np of None \<Rightarrow> s | Some x \<Rightarrow> Some x))"
  by (simp add: mixer_def apply_partial_def)

lemma mixer_flags:
  "mixer (ch\<lparr>isMuted := a, isSoloed := b\<rparr>) =
     (case mixer ch of (v, p, e, f, m, s) \<Rightarrow> (v, p, e, f, a, b))"
  by (simp add: mixer_def)

lemma map_mixer_update:
  assumes g: "\<And>ch. mixer (g ch) = G (mixer ch)"
    and eq: "map mixer cs = map mixer ds"
  shows "map mixer (cs[i := g (cs ! i)]) = map mixer (ds[i := g (ds ! i)])"
proof -
  have len: "length cs = length ds" using eq by (rule map_eq_imp_length_eq)
  show ?thesis
  proof (cases "i < length cs")
    case True
    have "mixer (cs ! i) = map mixer cs ! i" using True by simp
    also have "\<dots> = map mixer ds ! i" by (simp only: eq)
    also have "\<dots> = mixer (ds ! i)" using True len by simp
    finally have m: "mixer (cs ! i) = mixer (ds ! i)" .
    have "map mixer (cs[i := g (cs ! i)]) = (map mixer cs)[i := G (mixer (cs ! i))]"
      by (simp add: map_update g)
    also have "\<dots> = (map mixer ds)[i := G (mixer (ds ! i))]" by (simp only: eq m)
    also have "\<dots> = map mixer (ds[i := g (ds ! i)])" by (simp add: map_update g)
    finally show ?thesis .
  next
    case False
    then have "cs[i := g (cs ! i)] = cs" "ds[i := g (ds ! i)] = ds"
      using len by (simp_all add: list_update_beyond)
    then show ?thesis by (simp only: eq)
  qed
qed

lemma at_index_parallel:
  assumes "parallel ps" and g: "\<And>ch. mixer (g ch) = G (mixer ch)"
  shows "parallel (at_index i g ps)"
  unfolding parallel_def at_index_def list_all_iff
proof (intro ballI)
  fix p' q'
  assume "p' \<in> set (map (\<lambda>p. p\<lparr>channels := (channels p)[i := g (channels p ! i)]\<rparr>) ps)"
    and "q' \<in> set (map (\<lambda>p. p\<lparr>channels := (channels p)[i := g (channels p ! i)]\<rparr>) ps)"
  then obtain p q where p: "p \<in> set ps" "p' = p\<lparr>channels := (channels p)[i := g (channels p ! i)]\<rparr>"
    and q: "q \<in> set ps" "q' = q\<lparr>channels := (channels q)[i := g (channels q ! i)]\<rparr>"
    unfolding set_map image_iff by blast
  have "map mixer (channels p) = map mixer (channels q)"
    using assms(1) p(1) q(1) unfolding parallel_def list_all_iff by blast
  from map_mixer_update[of g G, OF g this] show "map mixer (channels p') = map mixer (channels q')"
    by (simp add: p(2) q(2))
qed

lemma add_parallel:
  assumes "parallel ps"
  shows "parallel (handleAddChannel nc ps)"
  unfolding parallel_def handleAddChannel_def list_all_iff
proof (intro ballI)
  fix p' q'
  assume "p' \<in> set (map (\<lambda>p. p\<lparr>channels := channels p @ [nc]\<rparr>) ps)"
    and "q' \<in> set (map (\<lambda>p. p\<lparr>channels := channels p @ [nc]\<rparr>) ps)"
  then obtain p q where p: "p \<in> set ps" "p' = p\<lparr>channels := channels p @ [nc]\<rparr>"
    and q: "q \<in> set ps" "q' = q\<lparr>channels := channels q @ [nc]\<rparr>"
    unfolding set_map image_iff by blast
  have "map mixer (channels p) = map mixer (channels q)"
    using assms p(1) q(1) unfolding parallel_def list_all_iff by blast
  then show "map mixer (channels p') = map mixer (channels q')"
    by (simp add: p(2) q(2))
qed

lemma at_index_frame:
  "length (at_index i g ps) = length ps
   \<and> (\<forall>k<length ps.
          (at_index i g ps ! k)\<lparr>channels := channels (ps ! k)\<rparr> = ps ! k
        \<and> length (channels (at_index i g ps ! k)) = length (channels (ps ! k))
        \<and> (\<forall>j<length (channels (ps ! k)).
              channels (at_index i g ps ! k) ! j
                = (if j = i then g (channels (ps ! k) ! j) else channels (ps ! k) ! j)))"
  by (simp add: at_index_def nth_list_update)

text \<open>
  Claim C9. On any non-empty pattern store a mute or solo toggle returns a store. In it the
  toggled channel, at its index in every pattern, never has both flags set; switching mute on
  leaves solo off and switching solo on leaves mute off; and if no channel of the store had
  both flags set before, none has after.
\<close>

theorem mute_solo_exclusive:
  "(currentPatterns \<noteq> [] \<longrightarrow> handleChannelMuteSoloChange channelId type currentPatterns \<noteq> None)
   \<and> (handleChannelMuteSoloChange channelId type currentPatterns = Some ps' \<longrightarrow>
        length ps' = length currentPatterns
      \<and> (all_exclusive currentPatterns \<longrightarrow> all_exclusive ps')
      \<and> (\<forall>i k. findIndex (\<lambda>c. ch_id c = channelId) (channels (currentPatterns ! 0)) = Some i
                 \<and> k < length ps' \<and> i < length (channels (ps' ! k)) \<longrightarrow>
             exclusive (channels (ps' ! k) ! i)
           \<and> (type = mute \<and> \<not> truthy (isMuted (channels (currentPatterns ! 0) ! i)) \<longrightarrow>
                 isMuted (channels (ps' ! k) ! i) = Some True
               \<and> isSoloed (channels (ps' ! k) ! i) = Some False)
           \<and> (type = solo \<and> \<not> truthy (isSoloed (channels (currentPatterns ! 0) ! i)) \<longrightarrow>
                 isSoloed (channels (ps' ! k) ! i) = Some True
               \<and> isMuted (channels (ps' ! k) ! i) = Some False)))"
proof (cases currentPatterns)
  case Nil
  then show ?thesis by (simp add: handleChannelMuteSoloChange_def)
next
  case (Cons p0 rest)
  show ?thesis
  proof (cases "findIndex (\<lambda>c. ch_id c = channelId) (channels p0)")
    case None
    then show ?thesis by (auto simp: Cons handleChannelMuteSoloChange_eq)
  next
    case (Some i)
    let ?g = "\<lambda>ch. ch\<lparr>isMuted := Some (fst (toggled_flags type (channels p0 ! i))),
                        isSoloed := Some (snd (toggled_flags type (channels p0 ! i)))\<rparr>"
    have r: "handleChannelMuteSoloChange channelId type currentPatterns = Some (at_index i ?g currentPatterns)"
      by (simp add: Cons handleChannelMuteSoloChange_eq Some)
    have ex: "exclusive (?g ch)" for ch
      using toggled_flags_exclusive[of type "channels p0 ! i"] by (simp add: exclusive_def truthy_def)
    have inv: "all_exclusive currentPatterns \<longrightarrow> all_exclusive (at_index i ?g currentPatterns)"
      using at_index_all_exclusive[of currentPatterns ?g i] ex by blast
    have pt: "channels (at_index i ?g currentPatterns ! k) ! i = ?g (channels (currentPatterns ! k) ! i)"
      if "k < length currentPatterns" "i < length (channels (at_index i ?g currentPatterns ! k))" for k
      using that at_index_frame[of i ?g currentPatterns] by simp
    have on: "\<not> truthy (isMuted (channels p0 ! i)) \<Longrightarrow>
              toggled_flags mute (channels p0 ! i) = (True, False)"
             "\<not> truthy (isSoloed (channels p0 ! i)) \<Longrightarrow>
              toggled_flags solo (channels p0 ! i) = (False, True)"
      by (simp_all add: toggled_flags_def)
    have len: "length (at_index i ?g currentPatterns) = length currentPatterns"
      by (simp add: at_index_def)
    show ?thesis
      unfolding r using inv pt ex on len Some
      by (auto simp: Cons)
  qed
qed

lemma demo_findIndex: "findIndex (\<lambda>c. ch_id c = ''a2'') (channels (demo_store ! 0)) = Some 1"
  by (simp add: demo_store_def demo_A_def demo_channel_def findIndex_Cons)

lemma demo_solo:
  "handleChannelMuteSoloChange ''a2'' solo demo_store =
     Some [\<lparr>pat_id = ''A'', pat_name = ''A'',
            channels = [demo_channel ''a1'' False,
                        (demo_channel ''a2'' True)\<lparr>isMuted := Some False, isSoloed := Some True\<rparr>],
            pat_length = 16\<rparr>,
           \<lparr>pat_id = ''B'', pat_name = ''B'',
            channels = [demo_channel ''b1'' False,
                        (demo_channel ''b2'' True)\<lparr>isMuted := Some False, isSoloed := Some True\<rparr>],
            pat_length = 16\<rparr>]"
proof -
  have f: "findIndex (\<lambda>c. ch_id c = ''a2'') [demo_channel ''a1'' False, demo_channel ''a2'' True] = Some 1"
    by (simp add: demo_channel_def findIndex_Cons)
  have t: "toggled_flags solo (demo_channel ''a2'' True) = (False, True)"
    by (simp add: toggled_flags_def demo_channel_def freshChannel_def truthy_def)
  show ?thesis
    by (simp add: demo_store_def demo_A_def demo_B_def handleChannelMuteSoloChange_eq f t at_index_def)
qed

theorem mute_solo_exclusive_witness:
  "demo_store \<noteq> []
   \<and> findIndex (\<lambda>c. ch_id c = ''a2'') (channels (demo_store ! 0)) = Some 1
   \<and> \<not> truthy (isSoloed (channels (demo_store ! 0) ! 1))
   \<and> truthy (isMuted (channels (demo_store ! 0) ! 1))
   \<and> all_exclusive demo_store
   \<and> handleChannelMuteSoloChange ''a2'' solo demo_store \<noteq> None
   \<and> all_exclusive (the (handleChannelMuteSoloChange ''a2'' solo demo_store))
   \<and> isSoloed (channels (the (handleChannelMuteSoloChange ''a2'' solo demo_store) ! 1) ! 1) = Some True
   \<and> isMuted (channels (the (handleChannelMuteSoloChange ''a2'' solo demo_store) ! 1) ! 1) = Some False"
proof -
  have a: "demo_store \<noteq> []" by (simp add: demo_store_def)
  have b: "\<not> truthy (isSoloed (channels (demo_store ! 0) ! 1))"
          "truthy (isMuted (channels (demo_store ! 0) ! 1))"
    by (simp_all add: demo_store_def demo_A_def demo_channel_def freshChannel_def truthy_def)
  have c: "all_exclusive demo_store"
    by (simp add: all_exclusive_def demo_store_def demo_A_def demo_B_def demo_channel_def
          freshChannel_def exclusive_def truthy_def)
  show ?thesis
    using mute_solo_exclusive[where currentPatterns = demo_store and channelId = "''a2''"
            and type = solo and ps' = "the (handleChannelMuteSoloChange ''a2'' solo demo_store)"]
          a b c demo_findIndex
    by (simp add: demo_solo)
qed

text \<open>
  Edits addressed by a channel id of the first pattern. A property update and a mute or solo
  toggle on the channel id found at index \<open>i\<close> of the first pattern update the channel at
  index \<open>i\<close> of every pattern, by the same function (the toggle sets the flags computed from
  the channel of the first pattern), and leave every other channel and every other field of
  each pattern as it was; an id that the first pattern does not have changes nothing. Adding
  a channel appends the same new channel to every pattern. Each of the three keeps the
  channel lists of the patterns parallel.
\<close>

lemma channel_edits_by_first_pattern_id:
  "(findIndex (\<lambda>c. ch_id c = cid) (channels p0) = Some i \<longrightarrow>
       handleChannelChange cid newProps (p0 # rest)
         = Some (at_index i (\<lambda>ch. apply_partial ch newProps) (p0 # rest))
     \<and> handleChannelMuteSoloChange cid type (p0 # rest)
         = Some (at_index i
                   (\<lambda>ch. ch\<lparr>isMuted := Some (fst (toggled_flags type (channels p0 ! i))),
                            isSoloed := Some (snd (toggled_flags type (channels p0 ! i)))\<rparr>)
                   (p0 # rest)))
   \<and> (findIndex (\<lambda>c. ch_id c = cid) (channels p0) = None \<longrightarrow>
       handleChannelChange cid newProps (p0 # rest) = Some (p0 # rest)
     \<and> handleChannelMuteSoloChange cid type (p0 # rest) = Some (p0 # rest))
   \<and> length (at_index i g ps) = length ps
   \<and> (\<forall>k<length ps.
          (at_index i g ps ! k)\<lparr>channels := channels (ps ! k)\<rparr> = ps ! k
        \<and> length (channels (at_index i g ps ! k)) = length (channels (ps ! k))
        \<and> (\<forall>j<length (channels (ps ! k)).
              channels (at_index i g ps ! k) ! j
                = (if j = i then g (channels (ps ! k) ! j) else channels (ps ! k) ! j)))
   \<and> length (handleAddChannel newChannel ps) = length ps
   \<and> (\<forall>k<length ps.
          handleAddChannel newChannel ps ! k = (ps ! k)\<lparr>channels := channels (ps ! k) @ [newChannel]\<rparr>)
   \<and> (parallel ps \<longrightarrow>
         (\<forall>ps'. handleChannelChange cid newProps ps = Some ps' \<longrightarrow> parallel ps')
       \<and> (\<forall>ps'. handleChannelMuteSoloChange cid type ps = Some ps' \<longrightarrow> parallel ps')
       \<and> parallel (handleAddChannel newChannel ps))"
proof -
  have A: "findIndex (\<lambda>c. ch_id c = cid) (channels p0) = Some i \<longrightarrow>
       handleChannelChange cid newProps (p0 # rest)
         = Some (at_index i (\<lambda>ch. apply_partial ch newProps) (p0 # rest))
     \<and> handleChannelMuteSoloChange cid type (p0 # rest)
         = Some (at_index i
                   (\<lambda>ch. ch\<lparr>isMuted := Some (fst (toggled_flags type (channels p0 ! i))),
                            isSoloed := Some (snd (toggled_flags type (channels p0 ! i)))\<rparr>)
                   (p0 # rest))"
    by (auto simp: handleChannelChange_eq handleChannelMuteSoloChange_eq)
  have B: "findIndex (\<lambda>c. ch_id c = cid) (channels p0) = None \<longrightarrow>
       handleChannelChange cid newProps (p0 # rest) = Some (p0 # rest)
     \<and> handleChannelMuteSoloChange cid type (p0 # rest) = Some (p0 # rest)"
    by (simp add: handleChannelChange_eq handleChannelMuteSoloChange_eq)
  have C: "length (handleAddChannel newChannel ps) = length ps
   \<and> (\<forall>k<length ps.
          handleAddChannel newChannel ps ! k = (ps ! k)\<lparr>channels := channels (ps ! k) @ [newChannel]\<rparr>)"
    by (simp add: handleAddChannel_def)
  have D1: "parallel ps'" if par: "parallel ps" and h: "handleChannelChange cid newProps ps = Some ps'" for ps'
  proof (cases ps)
    case Nil
    with h show ?thesis by (simp add: handleChannelChange_def)
  next
    case (Cons q0 qs)
    show ?thesis
    proof (cases "findIndex (\<lambda>c. ch_id c = cid) (channels q0)")
      case None
      with h par show ?thesis by (simp add: Cons handleChannelChange_eq)
    next
      case (Some j)
      with h have "ps' = at_index j (\<lambda>ch. apply_partial ch newProps) ps"
        by (simp add: Cons handleChannelChange_eq)
      then show ?thesis
        using at_index_parallel[OF par, of "\<lambda>ch. apply_partial ch newProps" _ j]
              mixer_apply_partial[of _ newProps] by blast
    qed
  qed
  have D2: "parallel ps'" if par: "parallel ps" and h: "handleChannelMuteSoloChange cid type ps = Some ps'" for ps'
  proof (cases ps)
    case Nil
    with h show ?thesis by (simp add: handleChannelMuteSoloChange_def)
  next
    case (Cons q0 qs)
    show ?thesis
    proof (cases "findIndex (\<lambda>c. ch_id c = cid) (channels q0)")
      case None
      with h par show ?thesis by (simp add: Cons handleChannelMuteSoloChange_eq)
    next
      case (Some j)
      define m where "m = Some (fst (toggled_flags type (channels q0 ! j)))"
      define s where "s = Some (snd (toggled_flags type (channels q0 ! j)))"
      from Some h have "ps' = at_index j (\<lambda>ch. ch\<lparr>isMuted := m, isSoloed := s\<rparr>) ps"
        by (simp add: Cons handleChannelMuteSoloChange_eq m_def s_def)
      then show ?thesis
        using at_index_parallel[OF par, of "\<lambda>ch. ch\<lparr>isMuted := m, isSoloed := s\<rparr>" _ j]
              mixer_flags[where a = m and b = s] by blast
    qed
  qed
  show ?thesis
    using A B C D1 D2 add_parallel[of ps newChannel] at_index_frame[of i g ps]
    by blast
qed

lemma demo_parallel: "parallel demo_store"
  by (simp add: parallel_def demo_store_def demo_A_def demo_B_def demo_channel_def mixer_def)

lemma channel_edits_by_first_pattern_id_example:
  "findIndex (\<lambda>c. ch_id c = ''a2'') (channels demo_A) = Some 1
   \<and> handleChannelChange ''a2'' (volume_props (-6)) demo_store
        = Some (at_index 1 (\<lambda>ch. apply_partial ch (volume_props (-6))) demo_store)
   \<and> (1::nat) < length demo_store \<and> (1::nat) < length (channels (demo_store ! 1))
   \<and> volume (channels (at_index 1 (\<lambda>ch. apply_partial ch (volume_props (-6))) demo_store ! 1) ! 1) = -6
   \<and> channels (at_index 1 (\<lambda>ch. apply_partial ch (volume_props (-6))) demo_store ! 1) ! 0
        = demo_channel ''b1'' False
   \<and> parallel demo_store
   \<and> parallel (at_index 1 (\<lambda>ch. apply_partial ch (volume_props (-6))) demo_store)"
proof -
  have f: "findIndex (\<lambda>c. ch_id c = ''a2'') (channels demo_A) = Some 1"
    by (simp add: demo_A_def demo_channel_def findIndex_Cons)
  have l: "(1::nat) < length demo_store" "(1::nat) < length (channels (demo_store ! 1))"
    "(0::nat) < length (channels (demo_store ! 1))"
    by (simp_all add: demo_store_def demo_B_def)
  have c: "channels (demo_store ! 1) ! 0 = demo_channel ''b1'' False"
    "volume (apply_partial (channels (demo_store ! 1) ! 1) (volume_props (-6))) = -6"
    by (simp_all add: demo_store_def demo_B_def apply_partial_def volume_props_def)
  show ?thesis
    using channel_edits_by_first_pattern_id[where cid = "''a2''" and ?p0.0 = demo_A and rest = "[demo_B]"
            and i = 1 and newProps = "volume_props (-6)" and ps = demo_store
            and g = "\<lambda>ch. apply_partial ch (volume_props (-6))"]
          f l c demo_parallel
    by (simp add: demo_store_def[symmetric])
qed

text \<open>
  Claim C10, evaluated on the pattern store after \<open>Add pattern\<close>. The editor shows the second
  pattern, whose channels carry ids of their own, and passes these ids to the handlers; the
  handlers look the id up among the channels of the first pattern only. A volume change and
  a mute toggle on the first channel of the second pattern therefore return the store as it
  was: the edit reaches no pattern, the edited one included. The same volume change and
  the same toggle addressed by the id of the first pattern's first channel change the channel
  at index 0 of both patterns, and adding a channel appends it to both.
\<close>

theorem channel_edit_in_added_pattern_is_lost:
  "snd (handleAddPattern ''pattern-2-0.5'' ''pattern-1'' [createInitialPattern ''pattern-1''])
     = ''pattern-2-0.5''
   \<and> map pat_id two_patterns = [''pattern-1'', ''pattern-2-0.5'']
   \<and> ch_id (channels (two_patterns ! 1) ! 0) = ''ch-pattern-2-0.5-1''
   \<and> map (\<lambda>p. volume (channels p ! 0)) two_patterns = [0, 0]
   \<and> handleChannelChange ''ch-pattern-2-0.5-1'' (volume_props (-6)) two_patterns
       = Some two_patterns
   \<and> map (\<lambda>p. isMuted (channels p ! 0)) two_patterns = [Some False, Some False]
   \<and> handleChannelMuteSoloChange ''ch-pattern-2-0.5-1'' mute two_patterns = Some two_patterns
   \<and> ch_id (channels (two_patterns ! 0) ! 0) = ''ch-pattern-1-1''
   \<and> map_option (map (\<lambda>p. volume (channels p ! 0)))
        (handleChannelChange ''ch-pattern-1-1'' (volume_props (-6)) two_patterns)
       = Some [-6, -6]
   \<and> map_option (map (\<lambda>p. (isMuted (channels p ! 0), isSoloed (channels p ! 0))))
        (handleChannelMuteSoloChange ''ch-pattern-1-1'' mute two_patterns)
       = Some [(Some True, Some False), (Some True, Some False)]
   \<and> map (\<lambda>p. map ch_id (drop 6 (channels p)))
        (handleAddChannel (demo_channel ''new'' False) two_patterns)
       = [[''new''], [''new'']]"
  by code_simp

section \<open>Playlist placement\<close>

lemma handleGridClick_eq:
  "handleGridClick patterns brushPatternId playlist track bar =
     (case find_pattern patterns brushPatternId of
        None \<Rightarrow> playlist
      | Some brushPattern \<Rightarrow>
          map_set (filter (\<lambda>e. \<not> click_removes patterns track bar (real (pat_length brushPattern) / 16) e)
                     playlist) (track, bar) brushPatternId)"
proof -
  have "(\<lambda>((entryTrack, entryBar), patternId).
                 \<not> (entryTrack = track \<and>
                    (case find_pattern patterns patternId of
                       None \<Rightarrow> False
                     | Some existingPattern \<Rightarrow>
                         let existingLengthInBars = real (pat_length existingPattern) / 16;
                             newStart = real bar;
                             newEnd = real bar + L;
                             existingStart = real entryBar;
                             existingEnd = real entryBar + existingLengthInBars
                         in newStart < existingEnd \<and> newEnd > existingStart)))
        = (\<lambda>e. \<not> click_removes patterns track bar L e)" for L
    by (auto simp: click_removes_def fun_eq_iff Let_def split: option.splits)
  then show ?thesis
    by (simp add: handleGridClick_def Let_def split: option.splits)
qed

lemma map_get_map_set: "map_get (map_set m k v) k' = (if k' = k then Some v else map_get m k')"
  by (induction m) (auto simp: map_get_def)

lemma set_map_set:
  "distinct (map fst m) \<Longrightarrow> set (map_set m k v) = insert (k, v) {e \<in> set m. fst e \<noteq> k}"
  by (induction m) (force+)

lemma fst_map_set: "set (map fst (map_set m k v)) = insert k (set (map fst m))"
proof (induction m)
  case Nil
  show ?case by simp
next
  case (Cons e m)
  obtain k' v' where e: "e = (k', v')" by (cases e)
  show ?case
  proof (cases "k' = k")
    case True
    then show ?thesis by (simp add: e)
  next
    case False
    have "set (map fst (map_set (e # m) k v)) = insert k' (set (map fst (map_set m k v)))"
      using False by (simp add: e)
    also have "\<dots> = insert k' (insert k (set (map fst m)))" by (simp only: Cons.IH)
    finally show ?thesis by (auto simp: e)
  qed
qed

lemma distinct_map_set: "distinct (map fst m) \<Longrightarrow> distinct (map fst (map_set m k v))"
proof (induction m)
  case Nil
  show ?case by simp
next
  case (Cons e m)
  obtain k' v' where e: "e = (k', v')" by (cases e)
  show ?case
  proof (cases "k' = k")
    case True
    with Cons.prems show ?thesis by (simp add: e)
  next
    case False
    have "k' \<notin> set (map fst (map_set m k v))"
      using Cons.prems False unfolding fst_map_set by (simp add: e)
    with Cons show ?thesis by (simp add: e False)
  qed
qed

lemma map_get_filter:
  "distinct (map fst m) \<Longrightarrow>
   map_get (filter P m) k =
     (case map_get m k of None \<Rightarrow> None | Some v \<Rightarrow> if P (k, v) then Some v else None)"
proof (induction m)
  case Nil
  show ?case by (simp add: map_get_def)
next
  case (Cons e m)
  obtain k' v' where e: "e = (k', v')" by (cases e)
  have nk: "map_of m k' = None" using Cons.prems by (simp add: e map_of_eq_None_iff)
  have nf: "map_of (filter P m) k' = None"
    using Cons.prems by (auto simp: e map_of_eq_None_iff)
  show ?case using Cons nk nf
    by (auto simp: e map_get_def split: option.splits)
qed

lemma intersect_removes:
  "ranges_intersect patterns bar L (k, pid) \<Longrightarrow> fst k = track \<Longrightarrow>
   click_removes patterns track bar L (k, pid)"
  by (auto simp: ranges_intersect_def click_removes_def split: option.splits)

lemma removes_intersect:
  assumes "click_removes patterns track bar L (k, pid)" and "0 < L"
    and "\<And>p. find_pattern patterns pid = Some p \<Longrightarrow> 0 < pat_length p"
  shows "ranges_intersect patterns bar L (k, pid)"
proof -
  from assms(1) obtain p where p: "find_pattern patterns pid = Some p"
    and c: "real bar < real (snd k) + real (pat_length p) / 16" "real bar + L > real (snd k)"
    by (auto simp: click_removes_def split: option.splits)
  have l: "0 < real (pat_length p) / 16" using assms(3)[OF p] by simp
  let ?x = "max (real (snd k)) (real bar)"
  have "real (snd k) \<le> ?x \<and> ?x < real (snd k) + real (pat_length p) / 16
        \<and> real bar \<le> ?x \<and> ?x < real bar + L"
    using c l assms(2) by (simp add: max_def)
  then have "\<exists>x::real. real (snd k) \<le> x \<and> x < real (snd k) + real (pat_length p) / 16
        \<and> real bar \<le> x \<and> x < real bar + L" by (rule exI)
  then show ?thesis unfolding ranges_intersect_def by (simp add: p)
qed

lemma covers_removes:
  assumes "covers patterns ((track, bar), brushPatternId) b"
    and "find_pattern patterns brushPatternId = Some brushPattern"
    and "covers patterns e b" and "fst (fst e) = track"
  shows "click_removes patterns track bar (real (pat_length brushPattern) / 16) e"
  using assms
  by (auto simp: covers_def click_removes_def split: option.splits)

lemma click_lookup:
  assumes d: "distinct (map fst playlist)"
    and b: "find_pattern patterns brushPatternId = Some brushPattern"
  shows "map_get (handleGridClick patterns brushPatternId playlist track bar) k =
     (if k = (track, bar) then Some brushPatternId
      else case map_get playlist k of
             None \<Rightarrow> None
           | Some pid \<Rightarrow>
               if click_removes patterns track bar (real (pat_length brushPattern) / 16) (k, pid)
               then None else Some pid)"
  by (simp add: handleGridClick_eq b map_get_map_set map_get_filter[OF d] split: option.splits)

lemma click_distinct:
  assumes d: "distinct (map fst playlist)"
  shows "distinct (map fst (handleGridClick patterns brushPatternId playlist track bar))"
  using d by (auto simp: handleGridClick_eq distinct_map_set distinct_map_filter split: option.splits)

lemma click_no_overlap:
  assumes d: "distinct (map fst playlist)" and n: "no_overlap patterns playlist"
  shows "no_overlap patterns (handleGridClick patterns brushPatternId playlist track bar)"
proof (cases "find_pattern patterns brushPatternId")
  case None
  then show ?thesis using n by (simp add: handleGridClick_eq)
next
  case (Some brushPattern)
  let ?L = "real (pat_length brushPattern) / 16"
  let ?new = "((track, bar), brushPatternId)"
  let ?kept = "filter (\<lambda>e. \<not> click_removes patterns track bar ?L e) playlist"
  have r: "handleGridClick patterns brushPatternId playlist track bar = map_set ?kept (track, bar) brushPatternId"
    by (simp add: handleGridClick_eq Some)
  have dk: "distinct (map fst ?kept)" using d by (simp add: distinct_map_filter)
  have s: "set (map_set ?kept (track, bar) brushPatternId)
           = insert ?new {e \<in> set ?kept. fst e \<noteq> (track, bar)}"
    by (rule set_map_set[OF dk])
  have old_new: "\<not> (covers patterns e b \<and> covers patterns ?new b)"
    if "e \<in> set ?kept" "fst (fst e) = track" for e b
  proof
    assume "covers patterns e b \<and> covers patterns ?new b"
    then have "click_removes patterns track bar ?L e"
      using covers_removes[OF _ Some _ that(2), of bar b] by blast
    with that(1) show False by simp
  qed
  show ?thesis unfolding r no_overlap_def s
  proof (intro ballI impI)
    fix e1 e2
    assume e1: "e1 \<in> insert ?new {e \<in> set ?kept. fst e \<noteq> (track, bar)}"
      and e2: "e2 \<in> insert ?new {e \<in> set ?kept. fst e \<noteq> (track, bar)}"
      and ne: "e1 \<noteq> e2 \<and> fst (fst e1) = fst (fst e2)"
    show "\<not> (\<exists>b. covers patterns e1 b \<and> covers patterns e2 b)"
    proof (cases "e1 = ?new")
      case True
      with e2 ne have "e2 \<in> set ?kept" "fst (fst e2) = track" by auto
      from old_new[OF this] show ?thesis using True by blast
    next
      case False
      note f1 = this
      show ?thesis
      proof (cases "e2 = ?new")
        case True
        with e1 ne f1 have "e1 \<in> set ?kept" "fst (fst e1) = track" by auto
        from old_new[OF this] show ?thesis using True by blast
      next
        case False
        with f1 e1 e2 have "e1 \<in> set playlist" "e2 \<in> set playlist" by auto
        with n ne show ?thesis unfolding no_overlap_def by blast
      qed
    qed
  qed
qed

lemma place_all_invariant:
  "distinct (map fst playlist) \<Longrightarrow>
   distinct (map fst (place_all patterns clicks playlist))
   \<and> (no_overlap patterns playlist \<longrightarrow> no_overlap patterns (place_all patterns clicks playlist))"
proof (induction clicks arbitrary: playlist)
  case Nil
  then show ?case by simp
next
  case (Cons c clicks)
  obtain brush track bar where c: "c = (brush, track, bar)" by (cases c)
  let ?pl = "handleGridClick patterns brush playlist track bar"
  have d: "distinct (map fst ?pl)" using Cons.prems by (rule click_distinct)
  from Cons.IH[OF d] click_no_overlap[OF Cons.prems, of patterns brush track bar]
  show ?case by (simp add: c)
qed

lemma find_pattern_Cons:
  "find_pattern (p # ps) pid = (if pat_id p = pid then Some p else find_pattern ps pid)"
  by (simp add: find_pattern_def)

lemma find_pattern_Nil: "find_pattern [] pid = None"
  by (simp add: find_pattern_def)

lemma placement_example_same_track:
  "handleGridClick [pat ''A'' 64, pat ''B'' 32, pat ''C'' 16] ''B'' [((0, 0), ''A'')] 0 2
     = [((0, 2), ''B'')]"
  by (simp add: handleGridClick_def find_pattern_Cons find_pattern_Nil pat_def Let_def)

lemma placement_example_other_track:
  "handleGridClick [pat ''A'' 64, pat ''B'' 32, pat ''C'' 16] ''C'' [((0, 0), ''A'')] 1 2
     = [((0, 0), ''A''), ((1, 2), ''C'')]"
  by (simp add: handleGridClick_def find_pattern_Cons find_pattern_Nil pat_def Let_def)

text \<open>
  Claim C4. A click with an existing brush pattern stores the brush under (track, bar),
  removes every other entry on that track whose bar range intersects the new one, and leaves
  the entries of all other tracks as they are (entries on the track that do not intersect stay
  too, pattern lengths being positive); a click with a missing brush pattern changes nothing.
  Hence any sequence of clicks keeps the playlist free of two placements on one track that
  cover a common bar. Placing B at track 0, bar 2 over A at track 0, bar 0 deletes A; placing C
  at track 1, bar 2 leaves A.
\<close>

theorem playlist_placement:
  assumes d: "distinct (map fst playlist)"
  shows
   "(find_pattern patterns brushPatternId = None \<longrightarrow>
       handleGridClick patterns brushPatternId playlist track bar = playlist)
  \<and> (find_pattern patterns brushPatternId = Some brushPattern \<longrightarrow>
       map_get (handleGridClick patterns brushPatternId playlist track bar) (track, bar)
         = Some brushPatternId
     \<and> (\<forall>k. fst k \<noteq> track \<longrightarrow>
           map_get (handleGridClick patterns brushPatternId playlist track bar) k = map_get playlist k)
     \<and> (\<forall>k. k \<noteq> (track, bar) \<and> map_get playlist k = None \<longrightarrow>
           map_get (handleGridClick patterns brushPatternId playlist track bar) k = None)
     \<and> (\<forall>k pid. map_get playlist k = Some pid \<and> fst k = track \<and> k \<noteq> (track, bar)
              \<and> ranges_intersect patterns bar (real (pat_length brushPattern) / 16) (k, pid) \<longrightarrow>
           map_get (handleGridClick patterns brushPatternId playlist track bar) k = None)
     \<and> (\<forall>k pid. map_get playlist k = Some pid \<and> fst k = track \<and> k \<noteq> (track, bar)
              \<and> \<not> ranges_intersect patterns bar (real (pat_length brushPattern) / 16) (k, pid)
              \<and> 0 < pat_length brushPattern
              \<and> (\<forall>p. find_pattern patterns pid = Some p \<longrightarrow> 0 < pat_length p) \<longrightarrow>
           map_get (handleGridClick patterns brushPatternId playlist track bar) k = Some pid))
  \<and> distinct (map fst (place_all patterns clicks playlist))
  \<and> (no_overlap patterns playlist \<longrightarrow> no_overlap patterns (place_all patterns clicks playlist))
  \<and> handleGridClick [pat ''A'' 64, pat ''B'' 32, pat ''C'' 16] ''B'' [((0, 0), ''A'')] 0 2
       = [((0, 2), ''B'')]
  \<and> handleGridClick [pat ''A'' 64, pat ''B'' 32, pat ''C'' 16] ''C'' [((0, 0), ''A'')] 1 2
       = [((0, 0), ''A''), ((1, 2), ''C'')]"
proof -
  have A: "find_pattern patterns brushPatternId = None \<longrightarrow>
       handleGridClick patterns brushPatternId playlist track bar = playlist"
    by (simp add: handleGridClick_eq)
  have B: "map_get (handleGridClick patterns brushPatternId playlist track bar) (track, bar)
         = Some brushPatternId
     \<and> (\<forall>k. fst k \<noteq> track \<longrightarrow>
           map_get (handleGridClick patterns brushPatternId playlist track bar) k = map_get playlist k)
     \<and> (\<forall>k. k \<noteq> (track, bar) \<and> map_get playlist k = None \<longrightarrow>
           map_get (handleGridClick patterns brushPatternId playlist track bar) k = None)
     \<and> (\<forall>k pid. map_get playlist k = Some pid \<and> fst k = track \<and> k \<noteq> (track, bar)
              \<and> ranges_intersect patterns bar (real (pat_length brushPattern) / 16) (k, pid) \<longrightarrow>
           map_get (handleGridClick patterns brushPatternId playlist track bar) k = None)
     \<and> (\<forall>k pid. map_get playlist k = Some pid \<and> fst k = track \<and> k \<noteq> (track, bar)
              \<and> \<not> ranges_intersect patterns bar (real (pat_length brushPattern) / 16) (k, pid)
              \<and> 0 < pat_length brushPattern
              \<and> (\<forall>p. find_pattern patterns pid = Some p \<longrightarrow> 0 < pat_length p) \<longrightarrow>
           map_get (handleGridClick patterns brushPatternId playlist track bar) k = Some pid)"
    if b: "find_pattern patterns brushPatternId = Some brushPattern"
  proof (intro conjI allI impI)
    show "map_get (handleGridClick patterns brushPatternId playlist track bar) (track, bar)
         = Some brushPatternId"
      by (simp add: click_lookup[OF d b])
  next
    fix k :: PlaylistKey
    assume "fst k \<noteq> track"
    then have "k \<noteq> (track, bar)" "\<And>pid L. \<not> click_removes patterns track bar L (k, pid)"
      by (auto simp: click_removes_def)
    then show "map_get (handleGridClick patterns brushPatternId playlist track bar) k = map_get playlist k"
      by (simp add: click_lookup[OF d b] split: option.splits)
  next
    fix k :: PlaylistKey
    assume "k \<noteq> (track, bar) \<and> map_get playlist k = None"
    then show "map_get (handleGridClick patterns brushPatternId playlist track bar) k = None"
      by (simp add: click_lookup[OF d b])
  next
    fix k :: PlaylistKey and pid
    assume a: "map_get playlist k = Some pid \<and> fst k = track \<and> k \<noteq> (track, bar)
              \<and> ranges_intersect patterns bar (real (pat_length brushPattern) / 16) (k, pid)"
    then have "click_removes patterns track bar (real (pat_length brushPattern) / 16) (k, pid)"
      using intersect_removes by blast
    with a show "map_get (handleGridClick patterns brushPatternId playlist track bar) k = None"
      by (simp add: click_lookup[OF d b])
  next
    fix k :: PlaylistKey and pid
    assume a: "map_get playlist k = Some pid \<and> fst k = track \<and> k \<noteq> (track, bar)
              \<and> \<not> ranges_intersect patterns bar (real (pat_length brushPattern) / 16) (k, pid)
              \<and> 0 < pat_length brushPattern
              \<and> (\<forall>p. find_pattern patterns pid = Some p \<longrightarrow> 0 < pat_length p)"
    then have "\<not> click_removes patterns track bar (real (pat_length brushPattern) / 16) (k, pid)"
      using removes_intersect[of patterns track bar "real (pat_length brushPattern) / 16" k pid]
      by auto
    with a show "map_get (handleGridClick patterns brushPatternId playlist track bar) k = Some pid"
      by (simp add: click_lookup[OF d b])
  qed
  show ?thesis
    using A B place_all_invariant[OF d, of patterns clicks]
          placement_example_same_track placement_example_other_track
    by blast
qed

theorem playlist_placement_witness:
  "distinct (map fst demo_playlist)
   \<and> find_pattern demo_patterns ''B'' = Some (pat ''B'' 32)
   \<and> map_get demo_playlist (0, 0) = Some ''A''
   \<and> ranges_intersect demo_patterns 2 (real (pat_length (pat ''B'' 32)) / 16) ((0, 0), ''A'')
   \<and> no_overlap demo_patterns demo_playlist
   \<and> map_get (handleGridClick demo_patterns ''B'' demo_playlist 0 2) (0, 0) = None
   \<and> map_get (handleGridClick demo_patterns ''B'' demo_playlist 0 2) (0, 2) = Some ''B''
   \<and> no_overlap demo_patterns
        (place_all demo_patterns [(''A'', 0, 1), (''C'', 0, 4), (''B'', 0, 3)] demo_playlist)"
proof -
  have d: "distinct (map fst demo_playlist)" by (simp add: demo_playlist_def)
  have f: "find_pattern demo_patterns ''B'' = Some (pat ''B'' 32)"
    by (simp add: demo_patterns_def find_pattern_Cons pat_def)
  have g: "map_get demo_playlist (0, 0) = Some ''A''" by (simp add: demo_playlist_def map_get_def)
  have "real 0 \<le> (2::real) \<and> (2::real) < real 0 + real 64 / 16 \<and> real 2 \<le> (2::real)
        \<and> (2::real) < real 2 + real 32 / 16" by simp
  then have "\<exists>x::real. real 0 \<le> x \<and> x < real 0 + real 64 / 16 \<and> real 2 \<le> x
        \<and> x < real 2 + real 32 / 16" by (rule exI)
  then have r: "ranges_intersect demo_patterns 2 (real (pat_length (pat ''B'' 32)) / 16) ((0, 0), ''A'')"
    by (simp add: ranges_intersect_def demo_patterns_def find_pattern_Cons pat_def)
  have n: "no_overlap demo_patterns demo_playlist" by (simp add: no_overlap_def demo_playlist_def)
  note T = playlist_placement[OF d, where patterns = demo_patterns and brushPatternId = "''B''"
            and brushPattern = "pat ''B'' 32" and track = 0 and bar = 2
            and clicks = "[(''A'', 0, 1), (''C'', 0, 4), (''B'', 0, 3)]"]
  from T f have c1: "map_get (handleGridClick demo_patterns ''B'' demo_playlist 0 2) (0, 2) = Some ''B''"
    by blast
  from T f have c4: "\<forall>k pid. map_get demo_playlist k = Some pid \<and> fst k = 0 \<and> k \<noteq> (0, 2)
              \<and> ranges_intersect demo_patterns 2 (real (pat_length (pat ''B'' 32)) / 16) (k, pid) \<longrightarrow>
           map_get (handleGridClick demo_patterns ''B'' demo_playlist 0 2) k = None"
    by blast
  from c4[rule_format, of "(0, 0)" "''A''"] g r
  have x: "map_get (handleGridClick demo_patterns ''B'' demo_playlist 0 2) (0, 0) = None" by simp
  from T n have y: "no_overlap demo_patterns
        (place_all demo_patterns [(''A'', 0, 1), (''C'', 0, 4), (''B'', 0, 3)] demo_playlist)"
    by blast
  show ?thesis using d f g r n x c1 y by blast
qed

section \<open>Song-mode resolution\<close>

lemma first_some_Some:
  "first_some f xs = Some y \<longleftrightarrow> (\<exists>i<length xs. f (xs ! i) = Some y \<and> (\<forall>j<i. f (xs ! j) = None))"
proof
  assume "first_some f xs = Some y"
  then obtain x where x: "List.find (\<lambda>x. f x \<noteq> None) xs = Some x" "f x = Some y"
    by (auto simp: first_some_def split: option.splits)
  from x(1) obtain i where "i < length xs" "x = xs ! i" "\<forall>j<i. \<not> f (xs ! j) \<noteq> None"
    unfolding find_Some_iff by blast
  with x(2) show "\<exists>i<length xs. f (xs ! i) = Some y \<and> (\<forall>j<i. f (xs ! j) = None)" by auto
next
  assume "\<exists>i<length xs. f (xs ! i) = Some y \<and> (\<forall>j<i. f (xs ! j) = None)"
  then obtain i where i: "i < length xs" "f (xs ! i) = Some y" "\<forall>j<i. f (xs ! j) = None" by blast
  then have "List.find (\<lambda>x. f x \<noteq> None) xs = Some (xs ! i)"
    unfolding find_Some_iff by (intro exI[of _ i]) auto
  then show "first_some f xs = Some y" by (simp add: first_some_def i(2))
qed

lemma first_some_None: "first_some f xs = None \<longleftrightarrow> (\<forall>x\<in>set xs. f x = None)"
proof (cases "List.find (\<lambda>x. f x \<noteq> None) xs")
  case None
  then have "\<forall>x\<in>set xs. f x = None" unfolding find_None_iff by blast
  with None show ?thesis by (simp add: first_some_def)
next
  case (Some x)
  then obtain i where "i < length xs" "f (xs ! i) \<noteq> None" "x = xs ! i"
    unfolding find_Some_iff by blast
  then have "x \<in> set xs" "f x \<noteq> None" by auto
  with Some show ?thesis by (auto simp: first_some_def)
qed

lemma candidateAt_Some:
  "candidateAt pl ps bar track s = Some (p, s') \<longleftrightarrow>
     s' = s \<and> (\<exists>pid. map_get pl (track, s) = Some pid \<and> pid \<noteq> [] \<and> find_pattern ps pid = Some p
                \<and> real bar < real s + real (pat_length p) / 16)"
  by (auto simp: candidateAt_def Let_def split: option.splits)

lemma candidateAt_matches:
  "s \<le> bar \<Longrightarrow> candidateAt pl ps bar track s = Some (p, s') \<longleftrightarrow> s' = s \<and> placement_matches pl ps bar track s p"
  by (auto simp: candidateAt_Some placement_matches_def)

lemma candidateAt_None:
  "s \<le> bar \<Longrightarrow> candidateAt pl ps bar track s = None \<longleftrightarrow> (\<forall>p. \<not> placement_matches pl ps bar track s p)"
proof -
  assume s: "s \<le> bar"
  have "candidateAt pl ps bar track s = None \<longleftrightarrow> (\<forall>p s'. candidateAt pl ps bar track s \<noteq> Some (p, s'))"
    by (cases "candidateAt pl ps bar track s") auto
  then show ?thesis using candidateAt_matches[OF s] by blast
qed

lemma matches_le: "placement_matches pl ps bar track s p \<Longrightarrow> s \<le> bar"
  by (auto simp: placement_matches_def)

lemma rev_upt_nth: "i < Suc bar \<Longrightarrow> rev [0..<Suc bar] ! i = bar - i"
  by (simp add: rev_nth del: upt_Suc)

lemma scan_track_Some:
  "first_some (candidateAt pl ps bar track) (rev [0..<Suc bar]) = Some (p, s) \<longleftrightarrow>
     placement_matches pl ps bar track s p
     \<and> (\<forall>s' p'. s < s' \<longrightarrow> \<not> placement_matches pl ps bar track s' p')"
    (is "?L \<longleftrightarrow> ?R")
proof
  assume ?L
  then obtain i where i: "i < Suc bar" "candidateAt pl ps bar track (bar - i) = Some (p, s)"
    "\<forall>j<i. candidateAt pl ps bar track (bar - j) = None"
    unfolding first_some_Some using rev_upt_nth[of _ bar]
    by (auto simp del: upt_Suc)
  from i(2) have s: "s = bar - i" "placement_matches pl ps bar track s p"
    using candidateAt_matches[of "bar - i" bar pl ps track p s] by auto
  have "\<not> placement_matches pl ps bar track s' p'" if "s < s'" for s' p'
  proof
    assume m: "placement_matches pl ps bar track s' p'"
    then have le: "s' \<le> bar" by (rule matches_le)
    then have "bar - s' < i" using that s(1) i(1) by linarith
    with i(3) have "candidateAt pl ps bar track (bar - (bar - s')) = None" by blast
    then have "candidateAt pl ps bar track s' = None" using le by simp
    with m candidateAt_None[OF le] show False by blast
  qed
  with s(2) show ?R by blast
next
  assume r: ?R
  then have le: "s \<le> bar" using matches_le by blast
  let ?i = "bar - s"
  have a: "?i < length (rev [0..<Suc bar])" by simp
  have b: "candidateAt pl ps bar track (rev [0..<Suc bar] ! ?i) = Some (p, s)"
    using r le candidateAt_matches[OF le, of pl ps track p s] by (simp add: rev_upt_nth del: upt_Suc)
  have c: "\<forall>j<?i. candidateAt pl ps bar track (rev [0..<Suc bar] ! j) = None"
  proof (intro allI impI)
    fix j assume j: "j < ?i"
    then have lt: "s < bar - j" and le': "bar - j \<le> bar" by linarith+
    from r lt have "\<forall>p'. \<not> placement_matches pl ps bar track (bar - j) p'" by blast
    then have "candidateAt pl ps bar track (bar - j) = None" using candidateAt_None[OF le'] by blast
    then show "candidateAt pl ps bar track (rev [0..<Suc bar] ! j) = None"
      using j by (simp add: rev_upt_nth del: upt_Suc)
  qed
  show ?L unfolding first_some_Some using a b c by blast
qed

lemma scan_track_None:
  "first_some (candidateAt pl ps bar track) (rev [0..<Suc bar]) = None \<longleftrightarrow>
     (\<forall>s p. \<not> placement_matches pl ps bar track s p)"
proof -
  have "(\<forall>s\<in>set (rev [0..<Suc bar]). candidateAt pl ps bar track s = None)
        \<longleftrightarrow> (\<forall>s\<le>bar. \<forall>p. \<not> placement_matches pl ps bar track s p)"
    using candidateAt_None[of _ bar pl ps track] by (auto simp del: upt_Suc simp: less_Suc_eq_le)
  also have "\<dots> \<longleftrightarrow> (\<forall>s p. \<not> placement_matches pl ps bar track s p)"
    using matches_le by blast
  finally show ?thesis unfolding first_some_None .
qed

lemma first_some_upt:
  "first_some f [0..<n] = Some y \<longleftrightarrow> (\<exists>i<n. f i = Some y \<and> (\<forall>j<i. f j = None))"
  unfolding first_some_Some by auto

lemma resolve_Some:
  "resolveActivePattern pl ps bar = Some (p, s) \<longleftrightarrow>
     (\<exists>track<32. placement_matches pl ps bar track s p
        \<and> (\<forall>s' p'. s < s' \<longrightarrow> \<not> placement_matches pl ps bar track s' p')
        \<and> (\<forall>track'<track. \<forall>s' p'. \<not> placement_matches pl ps bar track' s' p'))"
  unfolding resolveActivePattern_def first_some_upt
  by (simp only: scan_track_Some scan_track_None conj_assoc)

lemma resolve_None:
  "resolveActivePattern pl ps bar = None \<longleftrightarrow>
     (\<forall>track<32. \<forall>s p. \<not> placement_matches pl ps bar track s p)"
proof -
  let ?scan = "\<lambda>track. first_some (candidateAt pl ps bar track) (rev [0..<Suc bar])"
  have "resolveActivePattern pl ps bar = None \<longleftrightarrow> (\<forall>track\<in>set [0..<32]. ?scan track = None)"
    unfolding resolveActivePattern_def by (rule first_some_None)
  also have "\<dots> \<longleftrightarrow> (\<forall>track<32. ?scan track = None)" by (auto simp del: upt_Suc)
  finally show ?thesis by (simp only: scan_track_None)
qed

lemma triggerStep_sampler:
  "c \<in> set (triggerStep audioNodes noteDuration time stepValue channel) \<Longrightarrow>
   call_sampler c = sample_name (sample channel)"
  by (auto simp: triggerStep_def Let_def split: if_splits option.splits)

lemma resolve_example_1: "resolveActivePattern playlist_AB song_AB 1 = Some (song_AB ! 0, 0)"
  by code_simp

lemma resolve_example_3: "resolveActivePattern playlist_AB song_AB 3 = None"
  by code_simp

lemma resolve_example_4: "resolveActivePattern playlist_AB song_AB 4 = Some (song_AB ! 1, 4)"
  by code_simp

lemma song_AB_shape: "map pat_id song_AB = [''A'', ''B''] \<and> map pat_length song_AB = [32, 16]"
  by (simp add: song_AB_def demo_A_def demo_B_def)

text \<open>
  Claim C1. The pattern played at a bar is the one of the lowest track below 32 that has a
  matching placement, and on that track the matching placement with the greatest start bar;
  there is none exactly when no track below 32 has a matching placement. At a step the
  callback triggers nothing when no pattern is resolved, and otherwise triggers the channels
  of the resolved pattern only, each at the step counted from the placement's start bar. For
  the playlist with A (32 steps) at 0:0 and B (16 steps) at 0:4, bar 1 resolves to A, bar 3 to
  none and bar 4 to B.
\<close>

theorem song_resolution:
  "(resolveActivePattern playlist patterns currentBar = Some (p, s) \<longleftrightarrow>
      (\<exists>track<32. placement_matches playlist patterns currentBar track s p
         \<and> (\<forall>s' p'. s < s' \<longrightarrow> \<not> placement_matches playlist patterns currentBar track s' p')
         \<and> (\<forall>track'<track. \<forall>s' p'. \<not> placement_matches playlist patterns currentBar track' s' p')))
   \<and> (resolveActivePattern playlist patterns currentBar = None \<longleftrightarrow>
      (\<forall>track<32. \<forall>s' p'. \<not> placement_matches playlist patterns currentBar track s' p'))
   \<and> (resolveActivePattern playlist patterns (step div 16) = None \<longrightarrow>
        songSequenceCallback audioNodes noteDuration patterns playlist time step = [])
   \<and> (resolveActivePattern playlist patterns (step div 16) = Some (p, s) \<longrightarrow>
        songSequenceCallback audioNodes noteDuration patterns playlist time step
          = concat (map (\<lambda>channel.
              triggerStep audioNodes noteDuration time
                (if length (steps channel) = 0 then None
                 else js_get (steps channel)
                        (((step div 16 - s) * 16 + step mod 16) mod length (steps channel)))
                channel) (channels p))
      \<and> (\<forall>c\<in>set (songSequenceCallback audioNodes noteDuration patterns playlist time step).
            \<exists>channel\<in>set (channels p). call_sampler c = sample_name (sample channel)))
   \<and> map pat_id song_AB = [''A'', ''B''] \<and> map pat_length song_AB = [32, 16]
   \<and> resolveActivePattern playlist_AB song_AB 1 = Some (song_AB ! 0, 0)
   \<and> resolveActivePattern playlist_AB song_AB 3 = None
   \<and> resolveActivePattern playlist_AB song_AB 4 = Some (song_AB ! 1, 4)"
proof -
  have cb0: "resolveActivePattern playlist patterns (step div 16) = None \<longrightarrow>
        songSequenceCallback audioNodes noteDuration patterns playlist time step = []"
    by (simp add: songSequenceCallback_def)
  have cb1: "songSequenceCallback audioNodes noteDuration patterns playlist time step
          = concat (map (\<lambda>channel.
              triggerStep audioNodes noteDuration time
                (if length (steps channel) = 0 then None
                 else js_get (steps channel)
                        (((step div 16 - s) * 16 + step mod 16) mod length (steps channel)))
                channel) (channels p))"
    if "resolveActivePattern playlist patterns (step div 16) = Some (p, s)"
    using that by (simp add: songSequenceCallback_def Let_def)
  have cb2: "\<forall>c\<in>set (songSequenceCallback audioNodes noteDuration patterns playlist time step).
            \<exists>channel\<in>set (channels p). call_sampler c = sample_name (sample channel)"
    if "resolveActivePattern playlist patterns (step div 16) = Some (p, s)"
    unfolding cb1[OF that] using triggerStep_sampler by fastforce
  show ?thesis
    using resolve_Some[of playlist patterns currentBar p s] resolve_None[of playlist patterns currentBar]
          cb0 cb1 cb2 song_AB_shape resolve_example_1 resolve_example_3 resolve_example_4
    by blast
qed

theorem song_resolution_witness:
  "resolveActivePattern playlist_AB song_AB (16 div 16) = Some (song_AB ! 0, 0)
   \<and> (\<exists>track<32. placement_matches playlist_AB song_AB (16 div 16) track 0 (song_AB ! 0))
   \<and> songSequenceCallback (\<lambda>n. True) (1 / 8) song_AB playlist_AB 2 16
        = [TriggerAttack ''Channel 1'' 2, TriggerAttack ''Channel 1'' 2]"
proof -
  have r: "resolveActivePattern playlist_AB song_AB (16 div 16) = Some (song_AB ! 0, 0)"
    using resolve_example_1 by simp
  have e: "songSequenceCallback (\<lambda>n. True) (1 / 8) song_AB playlist_AB 2 16
        = [TriggerAttack ''Channel 1'' 2, TriggerAttack ''Channel 1'' 2]"
    by code_simp
  note T = song_resolution[where playlist = playlist_AB and patterns = song_AB and currentBar = "16 div 16"
      and step = 16 and p = "song_AB ! 0" and s = 0 and audioNodes = "\<lambda>n. True"
      and noteDuration = "1 / 8" and time = 2]
  from T r have m: "\<exists>track<32. placement_matches playlist_AB song_AB (16 div 16) track 0 (song_AB ! 0)"
    by blast
  show ?thesis using r e m by blast
qed

section \<open>Export and live song playback\<close>

lemma render_eq:
  "renderSongToBuffer patterns playlist audioClips bpm swing =
     (if songEndBar patterns playlist audioClips * ((60 / bpm) * 4) \<le> 0 then []
      else concat (map (export_entry_calls patterns bpm swing) playlist))"
  unfolding renderSongToBuffer_def export_entry_calls_def[abs_def] export_channel_calls_def[abs_def]
    Let_def export_samplers_def[symmetric]
  apply (rule if_cong[OF refl refl])
  apply (rule arg_cong[where f = concat])
  apply (rule map_cong[OF refl])
  apply (simp only: case_prod_beta)
  apply (rule option.case_cong[OF refl refl])
  apply (rule arg_cong[where f = concat])
  apply (rule map_cong[OF refl])
  apply (rule if_cong[OF refl refl])
  apply (rule if_cong[OF refl refl])
  apply (rule arg_cong[where f = concat])
  apply (rule arg_cong2[where f = map_index, OF _ refl])
  apply (intro ext)
  apply (simp add: export_step_calls_def hits_def split: option.splits)
  done

lemma map_index_snoc: "map_index f (xs @ [x]) = map_index f xs @ [f (length xs) x]"
  by (simp add: map_index_def)

lemma map_index_Nil: "map_index f [] = []"
  by (simp add: map_index_def)

lemma filter_tagged:
  "map snd (filter (\<lambda>e. fst e = g) (map (Pair t) xs)) = (if t = g then xs else [])"
  by (induction xs) auto

lemma map_snd_Pair: "map (snd \<circ> Pair g) xs = xs"
  by (simp add: comp_def)

lemma calls_at_step:
  "map snd (filter (\<lambda>e. fst e = g)
      (concat (map_index (\<lambda>i v. map (Pair (base + i)) (H i v)) xs)))
   = (if base \<le> g \<and> g - base < length xs then H (g - base) (xs ! (g - base)) else [])"
proof (induction xs rule: rev_induct)
  case Nil
  show ?case by (simp add: map_index_Nil)
next
  case (snoc x xs)
  have last: "map snd (filter (\<lambda>e. fst e = g) (map (Pair (base + length xs)) (H (length xs) x)))
     = (if base + length xs = g then H (length xs) x else [])"
    by (rule filter_tagged)
  consider "base \<le> g \<and> g - base < length xs" | "base + length xs = g" | "\<not> base \<le> g \<or> length xs < g - base"
    by linarith
  then show ?case
  proof cases
    case 1
    then have "base + length xs \<noteq> g" by linarith
    with 1 show ?thesis by (simp add: map_index_snoc snoc.IH last nth_append)
  next
    case 2
    then have "\<not> g - base < length xs" "base \<le> g" "g - base = length xs" by linarith+
    with 2 show ?thesis by (simp add: map_index_snoc snoc.IH map_snd_Pair)
  next
    case 3
    then have "base + length xs \<noteq> g" "\<not> (base \<le> g \<and> g - base < length xs)"
      "\<not> (base \<le> g \<and> g - base < Suc (length xs))" by linarith+
    then show ?thesis by (auto simp add: map_index_snoc snoc.IH last)
  qed
qed

lemma channel_calls_at_step:
  "map snd (filter (\<lambda>e. fst e = g) (export_channel_calls bpm swing samplers len bar channel))
   = (if truthy (isAudioClipChannel channel) \<or> sample_name (sample channel) \<notin> set samplers then []
      else if bar * 16 \<le> g \<and> g - bar * 16 < length (steps channel)
           then export_step_calls bpm swing (sample_name (sample channel)) len bar (g - bar * 16)
                  (steps channel ! (g - bar * 16))
           else [])"
  unfolding export_channel_calls_def
  using calls_at_step[of g "bar * 16"
      "\<lambda>i v. export_step_calls bpm swing (sample_name (sample channel)) len bar i v" "steps channel"]
  by simp

lemma export_step_calls_out: "len \<le> i \<Longrightarrow> export_step_calls bpm swing nm len bar i v = []"
  by (simp add: export_step_calls_def split: option.splits)

lemma map_snd_filter_concat:
  "map snd (filter P (concat xss)) = concat (map (\<lambda>xs. map snd (filter P xs)) xss)"
  by (induction xss) auto

lemma entry_calls_at_step:
  "map snd (filter (\<lambda>e. fst e = g) (export_entry_calls patterns bpm swing ((track, bar), pid)))
   = (case find_pattern patterns pid of
        None \<Rightarrow> []
      | Some p \<Rightarrow>
          if bar * 16 \<le> g \<and> g < bar * 16 + pat_length p
          then concat (map (\<lambda>channel.
                 if truthy (isAudioClipChannel channel)
                    \<or> sample_name (sample channel) \<notin> set (export_samplers patterns) then []
                 else if g - bar * 16 < length (steps channel)
                      then export_step_calls bpm swing (sample_name (sample channel)) (pat_length p) bar
                             (g - bar * 16) (steps channel ! (g - bar * 16))
                      else []) (channels p))
          else [])"
proof (cases "find_pattern patterns pid")
  case None
  then show ?thesis by (simp add: export_entry_calls_def)
next
  case (Some p)
  show ?thesis
  proof (cases "bar * 16 \<le> g \<and> g < bar * 16 + pat_length p")
    case True
    then have a: "bar * 16 \<le> g" "g < bar * 16 + pat_length p" by simp_all
    show ?thesis
      by (simp add: export_entry_calls_def Some map_snd_filter_concat channel_calls_at_step comp_def a
            cong: if_cong)
  next
    case False
    have "map snd (filter (\<lambda>e. fst e = g)
            (export_channel_calls bpm swing (export_samplers patterns) (pat_length p) bar channel)) = []"
      for channel
    proof (cases "bar * 16 \<le> g")
      case True
      with False have "pat_length p \<le> g - bar * 16" by linarith
      then show ?thesis by (simp add: channel_calls_at_step export_step_calls_out)
    next
      case False
      then show ?thesis by (simp add: channel_calls_at_step)
    qed
    then have "map snd (filter (\<lambda>e. fst e = g) (export_entry_calls patterns bpm swing ((track, bar), pid))) = []"
      by (simp add: export_entry_calls_def Some map_snd_filter_concat comp_def)
    then show ?thesis by (simp only: Some option.case if_not_P[OF False])
  qed
qed

lemma covers_steps:
  assumes "find_pattern patterns pid = Some p" and "16 dvd pat_length p"
  shows "covers patterns ((track, bar), pid) (g div 16) \<longleftrightarrow> bar * 16 \<le> g \<and> g < bar * 16 + pat_length p"
proof -
  from assms(2) obtain m where m: "pat_length p = 16 * m" by (auto simp: dvd_def)
  have "real (g div 16) < real bar + real (pat_length p) / 16 \<longleftrightarrow> g div 16 < bar + m"
    by (simp add: m flip: of_nat_add)
  also have "\<dots> \<longleftrightarrow> g < bar * 16 + pat_length p" unfolding m by linarith
  finally have a: "real (g div 16) < real bar + real (pat_length p) / 16 \<longleftrightarrow> g < bar * 16 + pat_length p" .
  have b: "bar \<le> g div 16 \<longleftrightarrow> bar * 16 \<le> g" by linarith
  show ?thesis by (simp add: covers_def assms(1) a b)
qed

lemma step_time_eq:
  assumes "swing \<le> 0 \<or> 1 / 100 < swing"
  shows "transportStepTime bpm (transportSwing swing) (bar * 16 + i)
     = (if swing > 0 \<and> (bar * 16 + i) mod 2 \<noteq> 0
        then real bar * ((60 / bpm) * 4) + real i * ((60 / bpm) / 4) + swing * (((60 / bpm) / 4) / 2)
        else real bar * ((60 / bpm) * 4) + real i * ((60 / bpm) / 4))"
proof -
  define A where "A = real bar * ((60 / bpm) * 4) + real i * ((60 / bpm) / 4)"
  define D where "D = (60 / bpm) / 4 / 2"
  have base: "real (bar * 16 + i) * (60 / bpm / 4) = A"
    unfolding A_def by (simp add: algebra_simps)
  have odd: "odd (bar * 16 + i) \<longleftrightarrow> (bar * 16 + i) mod 2 \<noteq> 0" by presburger
  have l: "transportStepTime bpm sw (bar * 16 + i)
             = A + (if (bar * 16 + i) mod 2 \<noteq> 0 then sw * D else 0)" for sw
    by (simp only: transportStepTime_def secondsPer16th_def base odd D_def)
  have goal: "A + (if (bar * 16 + i) mod 2 \<noteq> 0 then transportSwing swing * D else 0)
     = (if swing > 0 \<and> (bar * 16 + i) mod 2 \<noteq> 0 then A + swing * D else A)"
  proof (cases "swing \<le> 0")
    case True
    then have "transportSwing swing = 0" by (simp add: transportSwing_def)
    with True show ?thesis by simp
  next
    case False
    with assms have "1 / 100 < swing" "0 < swing" by simp_all
    then have "transportSwing swing = swing" by (simp add: transportSwing_def)
    with \<open>0 < swing\<close> show ?thesis by simp
  qed
  show ?thesis using goal unfolding l A_def D_def .
qed

lemma attacks_append: "attacks (xs @ ys) = attacks xs @ attacks ys"
  by (simp add: attacks_def)

lemma attacks_concat: "attacks (concat xss) = concat (map attacks xss)"
  by (induction xss) (simp_all add: attacks_def)

lemma attacks_hits: "attacks (hits nm d t v) = hits nm d t v"
  by (simp add: attacks_def hits_def)

lemma attacks_triggerStep:
  "attacks (triggerStep audioNodes noteDuration time stepValue channel) =
     (if truthy (isAudioClipChannel channel) then []
      else if (case ch_notes channel of None \<Rightarrow> False | Some ns \<Rightarrow> length ns > 0) then []
      else case stepValue of
             None \<Rightarrow> []
           | Some v \<Rightarrow> if v > 0 \<and> audioNodes (sample_name (sample channel))
                      then hits (sample_name (sample channel)) noteDuration time v else [])"
proof -
  have h: "(if v = 1 then [TriggerAttack nm time]
            else map (\<lambda>i. TriggerAttack nm (time + real i * (noteDuration / real_of_int (if v = 3 then 3 else v))))
                   [0..<nat (if v = 3 then 3 else v)]) = hits nm noteDuration time v" for v nm
    by (simp add: hits_def)
  have r: "attacks (ReleaseAll nm time # cs) = attacks cs" "attacks [] = []" for nm cs
    by (simp_all add: attacks_def)
  show ?thesis
    unfolding triggerStep_def Let_def h
    by (simp add: attacks_append attacks_hits r split: option.splits)
qed

lemma find_pattern_mem: "find_pattern patterns pid = Some p \<Longrightarrow> p \<in> set patterns"
  unfolding find_pattern_def find_Some_iff by auto

lemma channel_live_export:
  assumes wf: "song_wellformed audioNodes patterns playlist"
    and sw: "swing \<le> 0 \<or> 1 / 100 < swing"
    and p: "p \<in> set patterns" and c: "c \<in> set (channels p)"
    and lo: "s * 16 \<le> g" and hi: "g < s * 16 + pat_length p"
  shows "attacks (triggerStep audioNodes (secondsPer16th bpm)
                   (transportStepTime bpm (transportSwing swing) g)
                   (if length (steps c) = 0 then None
                    else js_get (steps c) (((g div 16 - s) * 16 + g mod 16) mod length (steps c))) c)
     = (if truthy (isAudioClipChannel c) \<or> sample_name (sample c) \<notin> set (export_samplers patterns)
        then []
        else if g - s * 16 < length (steps c)
             then export_step_calls bpm swing (sample_name (sample c)) (pat_length p) s (g - s * 16)
                    (steps c ! (g - s * 16))
             else [])"
proof (cases "truthy (isAudioClipChannel c)")
  case True
  then show ?thesis by (simp add: attacks_triggerStep)
next
  case False
  define i where "i = g - s * 16"
  have g: "g = s * 16 + i" using lo by (simp add: i_def)
  have idx: "(g div 16 - s) * 16 + g mod 16 = i" unfolding g by simp
  from wf p c False have nn: "(case ch_notes c of None \<Rightarrow> True | Some ns \<Rightarrow> ns = [])"
    and len: "pat_length p \<le> length (steps c)"
    and an: "audioNodes (sample_name (sample c)) \<longleftrightarrow> sample_name (sample c) \<in> set (export_samplers patterns)"
    unfolding song_wellformed_def by blast+
  have il: "i < pat_length p" using hi g by simp
  then have ils: "i < length (steps c)" using len by simp
  have nonotes: "\<not> (case ch_notes c of None \<Rightarrow> False | Some ns \<Rightarrow> length ns > 0)"
    using nn by (cases "ch_notes c") simp_all
  have val: "(if length (steps c) = 0 then None else js_get (steps c) (i mod length (steps c)))
             = steps c ! i"
    using ils by (auto simp add: js_get_def)
  have live: "attacks (triggerStep audioNodes (secondsPer16th bpm)
                   (transportStepTime bpm (transportSwing swing) g)
                   (steps c ! i) c)
     = (case steps c ! i of
          None \<Rightarrow> []
        | Some v \<Rightarrow> if v > 0 \<and> audioNodes (sample_name (sample c))
                   then hits (sample_name (sample c)) (secondsPer16th bpm)
                          (transportStepTime bpm (transportSwing swing) g) v
                   else [])"
    using False nonotes by (simp add: attacks_triggerStep)
  have ex: "export_step_calls bpm swing (sample_name (sample c)) (pat_length p) s i (steps c ! i)
     = (case steps c ! i of
          None \<Rightarrow> []
        | Some v \<Rightarrow> if v > 0
                   then hits (sample_name (sample c)) (secondsPer16th bpm)
                          (transportStepTime bpm (transportSwing swing) g) v
                   else [])"
    unfolding export_step_calls_def g step_time_eq[OF sw] secondsPer16th_def
    using il by (auto split: option.splits)
  show ?thesis
    unfolding idx val live i_def[symmetric] ex
    using False ils an by (auto split: option.splits)
qed

lemma fold_ge:
  fixes a :: real
  assumes "\<And>x a. a \<le> h x a"
  shows "a \<le> fold h xs a"
proof (induction xs arbitrary: a)
  case Nil
  show ?case by simp
next
  case (Cons x xs)
  have "a \<le> h x a" by (rule assms)
  also have "\<dots> \<le> fold h xs (h x a)" by (rule Cons.IH)
  finally show ?case by simp
qed

lemma fold_mem_ge:
  fixes v :: real
  assumes mono: "\<And>x a. a \<le> h x a" and mem: "x \<in> set xs" and v: "\<And>a. v \<le> h x a"
  shows "v \<le> fold h xs a"
  using mem
proof (induction xs arbitrary: a)
  case Nil
  then show ?case by simp
next
  case (Cons y ys)
  show ?case
  proof (cases "x = y")
    case True
    have "v \<le> h x a" by (rule v)
    also have "\<dots> \<le> fold h ys (h x a)" by (rule fold_ge[OF mono])
    finally show ?thesis by (simp add: True)
  next
    case False
    with Cons.prems have "x \<in> set ys" by simp
    from Cons.IH[OF this] show ?thesis by simp
  qed
qed

lemma songEndBar_ge:
  assumes "((track, bar), pid) \<in> set playlist" and "find_pattern patterns pid = Some p"
  shows "real bar + real (pat_length p) / 16 \<le> songEndBar patterns playlist audioClips"
proof -
  let ?h = "\<lambda>((track, bar), patternId) e.
                case find_pattern patterns patternId of
                  None \<Rightarrow> e
                | Some pattern \<Rightarrow> max e (real bar + real (pat_length pattern) / 16)"
  have mono: "a \<le> ?h x a" for x and a :: real
    by (cases x; cases "fst x") (simp split: option.splits)
  have "real bar + real (pat_length p) / 16 \<le> fold ?h playlist 0"
  proof (rule fold_mem_ge[where x = "((track, bar), pid)"])
    show "a \<le> ?h x a" for x and a :: real by (rule mono)
    show "((track, bar), pid) \<in> set playlist" by (rule assms(1))
    show "real bar + real (pat_length p) / 16 \<le> ?h ((track, bar), pid) a" for a
      by (simp add: assms(2))
  qed
  also have "\<dots> \<le> fold (\<lambda>clip e. max e (clip_startBar clip + clip_trimDurationBars clip)) audioClips
                    (fold ?h playlist 0)"
    by (rule fold_ge) simp
  finally show ?thesis unfolding songEndBar_def .
qed

lemma matches_entry:
  assumes "placement_matches playlist patterns b track s p"
  shows "\<exists>pid. ((track, s), pid) \<in> set playlist \<and> find_pattern patterns pid = Some p
               \<and> covers patterns ((track, s), pid) b"
proof -
  from assms obtain pid where pid: "map_get playlist (track, s) = Some pid"
    "find_pattern patterns pid = Some p" "s \<le> b" "real s + real (pat_length p) / 16 > real b"
    unfolding placement_matches_def by blast
  from pid(1) have "((track, s), pid) \<in> set playlist" unfolding map_get_def by (rule map_of_SomeD)
  moreover have "covers patterns ((track, s), pid) b" using pid(2,3,4) by (simp add: covers_def)
  ultimately show ?thesis using pid(2) by blast
qed

lemma entry_matches:
  assumes wf: "song_wellformed audioNodes patterns playlist"
    and e: "((track, s), pid) \<in> set playlist" and c: "covers patterns ((track, s), pid) b"
  shows "\<exists>p. find_pattern patterns pid = Some p \<and> track < 32
             \<and> placement_matches playlist patterns b track s p"
proof -
  from c obtain p where p: "find_pattern patterns pid = Some p" "s \<le> b"
    "real b < real s + real (pat_length p) / 16"
    by (auto simp: covers_def split: option.splits)
  from wf have d: "distinct (map fst playlist)" by (simp add: song_wellformed_def)
  from wf e have t: "track < 32" "pid \<noteq> []" unfolding song_wellformed_def by fastforce+
  have "map_get playlist (track, s) = Some pid"
    unfolding map_get_def using d e by (simp add: map_of_eq_Some_iff)
  with p t show ?thesis unfolding placement_matches_def by blast
qed

lemma resolve_covering:
  assumes wf: "song_wellformed audioNodes patterns playlist"
    and e: "((track, s), pid) \<in> set playlist" and c: "covers patterns ((track, s), pid) b"
  shows "\<exists>p. find_pattern patterns pid = Some p \<and> resolveActivePattern playlist patterns b = Some (p, s)"
proof -
  from entry_matches[OF wf e c] obtain p where p: "find_pattern patterns pid = Some p" "track < 32"
    "placement_matches playlist patterns b track s p" by blast
  then have "resolveActivePattern playlist patterns b \<noteq> None" unfolding resolve_None by blast
  then obtain p' s' where r: "resolveActivePattern playlist patterns b = Some (p', s')" by auto
  then obtain track' where "placement_matches playlist patterns b track' s' p'"
    unfolding resolve_Some by blast
  from matches_entry[OF this] obtain pid' where e': "((track', s'), pid') \<in> set playlist"
    "find_pattern patterns pid' = Some p'" "covers patterns ((track', s'), pid') b" by blast
  from wf e e' c have "((track, s), pid) = ((track', s'), pid')"
    unfolding song_wellformed_def by blast
  with e'(2) p(1) r show ?thesis by simp
qed

lemma resolve_uncovered:
  assumes "\<forall>e\<in>set playlist. \<not> covers patterns e b"
  shows "resolveActivePattern playlist patterns b = None"
  unfolding resolve_None using matches_entry assms by blast

lemma concat_single:
  assumes "distinct xs" and "x \<in> set xs" and "\<And>y. y \<in> set xs \<Longrightarrow> y \<noteq> x \<Longrightarrow> f y = []"
  shows "concat (map f xs) = f x"
  using assms
proof (induction xs)
  case Nil
  then show ?case by simp
next
  case (Cons y ys)
  show ?case
  proof (cases "y = x")
    case True
    with Cons.prems have "\<And>z. z \<in> set ys \<Longrightarrow> f z = []" by auto
    then have "concat (map f ys) = []" by simp
    with True show ?thesis by simp
  next
    case False
    with Cons.prems have "f y = []" "x \<in> set ys" "distinct ys" by auto
    with Cons show ?thesis by simp
  qed
qed

lemma exportAtStep_entries:
  "exportAtStep (concat (map (export_entry_calls patterns bpm swing) playlist)) g
     = concat (map (\<lambda>e. map snd (filter (\<lambda>c. fst c = g) (export_entry_calls patterns bpm swing e)))
                 playlist)"
  by (simp add: exportAtStep_def map_snd_filter_concat comp_def)

lemma entry_uncovered:
  assumes wf: "song_wellformed audioNodes patterns playlist"
    and e: "e \<in> set playlist" and n: "\<not> covers patterns e (g div 16)"
  shows "map snd (filter (\<lambda>c. fst c = g) (export_entry_calls patterns bpm swing e)) = []"
proof -
  obtain track bar pid where ek: "e = ((track, bar), pid)" by (metis prod.collapse)
  show ?thesis
  proof (cases "find_pattern patterns pid")
    case None
    then show ?thesis by (simp add: ek entry_calls_at_step)
  next
    case (Some p)
    from wf find_pattern_mem[OF Some] have "16 dvd pat_length p" unfolding song_wellformed_def by blast
    from covers_steps[OF Some this, of track bar g] n
    have nc: "\<not> (bar * 16 \<le> g \<and> g < bar * 16 + pat_length p)" by (simp add: ek)
    show ?thesis unfolding ek entry_calls_at_step Some option.case by (simp only: if_not_P[OF nc])
  qed
qed

lemma export_live_step:
  assumes wf: "song_wellformed audioNodes patterns playlist"
    and bpm: "0 < bpm" and sw: "swing \<le> 0 \<or> 1 / 100 < swing"
    and inside: "g < songLengthSteps \<or> ends_within_song patterns playlist"
  shows "exportAtStep (renderSongToBuffer patterns playlist audioClips bpm swing) g
       = attacks (liveSongStep audioNodes bpm swing patterns playlist g)"
proof (cases "\<exists>e\<in>set playlist. covers patterns e (g div 16)")
  case True
  then obtain track s pid where e: "((track, s), pid) \<in> set playlist"
    and c: "covers patterns ((track, s), pid) (g div 16)"
    by (metis prod.collapse)
  from resolve_covering[OF wf e c] obtain p where p: "find_pattern patterns pid = Some p"
    and r: "resolveActivePattern playlist patterns (g div 16) = Some (p, s)" by blast
  have pm: "p \<in> set patterns" using p by (rule find_pattern_mem)
  with wf have dv: "16 dvd pat_length p" unfolding song_wellformed_def by blast
  from c covers_steps[OF p dv, of track s g]
  have lo: "s * 16 \<le> g" and hi: "g < s * 16 + pat_length p" by simp_all
  have gl: "g < songLengthSteps"
  proof (cases "g < songLengthSteps")
    case True
    then show ?thesis .
  next
    case False
    with inside have "ends_within_song patterns playlist" by simp
    with e p have "s * 16 + pat_length p \<le> songLengthSteps"
      unfolding ends_within_song_def by fastforce
    with hi show ?thesis by simp
  qed
  \<comment> \<open>the export is not cut short\<close>
  from c p have "real (g div 16) < real s + real (pat_length p) / 16" by (simp add: covers_def)
  also have "\<dots> \<le> songEndBar patterns playlist audioClips" by (rule songEndBar_ge[OF e p])
  finally have "0 < songEndBar patterns playlist audioClips"
    using of_nat_0_le_iff[of "g div 16"] by (meson le_less_trans)
  moreover have "0 < (60 / bpm) * 4" using bpm by simp
  ultimately have "0 < songEndBar patterns playlist audioClips * ((60 / bpm) * 4)"
    by (rule mult_pos_pos)
  then have dur: "\<not> songEndBar patterns playlist audioClips * ((60 / bpm) * 4) \<le> 0"
    by (simp only: not_le)
  \<comment> \<open>only the covering entry contributes to the step\<close>
  from wf have "distinct (map fst playlist)" by (simp add: song_wellformed_def)
  then have d: "distinct playlist" by (rule distinct_map[THEN iffD1, THEN conjunct1])
  have others: "map snd (filter (\<lambda>c. fst c = g) (export_entry_calls patterns bpm swing e')) = []"
    if "e' \<in> set playlist" "e' \<noteq> ((track, s), pid)" for e'
  proof (rule entry_uncovered[OF wf that(1)])
    show "\<not> covers patterns e' (g div 16)"
    proof
      assume "covers patterns e' (g div 16)"
      with wf that(1) e c have "e' = ((track, s), pid)" unfolding song_wellformed_def by blast
      with that(2) show False by simp
    qed
  qed
  have "exportAtStep (renderSongToBuffer patterns playlist audioClips bpm swing) g
      = map snd (filter (\<lambda>c. fst c = g) (export_entry_calls patterns bpm swing ((track, s), pid)))"
    unfolding render_eq if_not_P[OF dur] exportAtStep_entries
    by (rule concat_single[OF d e others])
  also have "\<dots> = concat (map (\<lambda>channel.
                 if truthy (isAudioClipChannel channel)
                    \<or> sample_name (sample channel) \<notin> set (export_samplers patterns) then []
                 else if g - s * 16 < length (steps channel)
                      then export_step_calls bpm swing (sample_name (sample channel)) (pat_length p) s
                             (g - s * 16) (steps channel ! (g - s * 16))
                      else []) (channels p))"
    using lo hi by (simp add: entry_calls_at_step p)
  also have "\<dots> = concat (map (\<lambda>channel.
        attacks (triggerStep audioNodes (secondsPer16th bpm)
                   (transportStepTime bpm (transportSwing swing) g)
                   (if length (steps channel) = 0 then None
                    else js_get (steps channel)
                           (((g div 16 - s) * 16 + g mod 16) mod length (steps channel))) channel))
        (channels p))"
    by (rule arg_cong[where f = concat], rule map_cong[OF refl],
        rule channel_live_export[OF wf sw pm _ lo hi, symmetric])
  also have "\<dots> = attacks (liveSongStep audioNodes bpm swing patterns playlist g)"
    using gl by (simp add: liveSongStep_def songSequenceCallback_def r Let_def attacks_concat comp_def)
  finally show ?thesis .
next
  case False
  then have n: "\<And>e. e \<in> set playlist \<Longrightarrow> \<not> covers patterns e (g div 16)" by blast
  have "map snd (filter (\<lambda>c. fst c = g) (export_entry_calls patterns bpm swing e)) = []"
    if "e \<in> set playlist" for e
    by (rule entry_uncovered[OF wf that n[OF that]])
  then have "concat (map (\<lambda>e. map snd (filter (\<lambda>c. fst c = g) (export_entry_calls patterns bpm swing e)))
                 playlist) = []"
    by simp
  then have ex: "exportAtStep (renderSongToBuffer patterns playlist audioClips bpm swing) g = []"
    unfolding render_eq by (simp add: exportAtStep_entries) (simp add: exportAtStep_def)
  have "resolveActivePattern playlist patterns (g div 16) = None"
    using False by (intro resolve_uncovered) blast
  then have "liveSongStep audioNodes bpm swing patterns playlist g = []"
    by (simp add: liveSongStep_def songSequenceCallback_def)
  with ex show ?thesis by (simp add: attacks_def)
qed

text \<open>
  Claim C2, evaluated on a song with the kick pattern on track 0 and the snare pattern on
  track 1, both at bar 0. The live callback resolves step 0 to the kick pattern alone and, at
  whatever time the transport passes to it, triggers only the kick. The export has no
  resolution step: it walks every playlist entry and schedules the kick and the snare at
  step 0.
\<close>

theorem export_layers_overlapping_tracks:
  "map_option (pat_id \<circ> fst) (resolveActivePattern layered_playlist kick_snare 0) = Some ''K''
   \<and> songSequenceCallback loaded_kick_snare (secondsPer16th 120) kick_snare layered_playlist time 0
       = [TriggerAttack ''kick'' time]
   \<and> exportAtStep (renderSongToBuffer kick_snare layered_playlist [] 120 0) 0
       = [TriggerAttack ''kick'' 0, TriggerAttack ''snare'' 0]"
  by code_simp

text \<open>
  Where the two paths agree. On a well-formed project state (in particular, at most one
  placement covers any bar), at a positive tempo and with a swing that is either not positive
  or above 0.01, the export schedules for every global step of the live song sequence exactly
  the attacks that the live scheduler triggers at that step: same samplers, same times, same
  sub-hits, in the same order. When every placement ends within the 72 bars of the live
  sequence, this holds for every step, so the export schedules nothing else. The live times
  are those of \<open>transportStepTime\<close>; the releases that the live scheduler issues for channels
  that cut themselves are not attacks and have no counterpart in the export.
\<close>

lemma export_agrees_without_overlap:
  assumes "song_wellformed audioNodes patterns playlist"
    and "0 < bpm" and "swing \<le> 0 \<or> 1 / 100 < swing"
  shows "(step < songLengthSteps \<longrightarrow>
           exportAtStep (renderSongToBuffer patterns playlist audioClips bpm swing) step
             = attacks (liveSongStep audioNodes bpm swing patterns playlist step))
       \<and> (ends_within_song patterns playlist \<longrightarrow>
           (\<forall>g. exportAtStep (renderSongToBuffer patterns playlist audioClips bpm swing) g
                  = attacks (liveSongStep audioNodes bpm swing patterns playlist g)))"
  using export_live_step[OF assms] by blast

lemma kick_snare_wellformed: "song_wellformed loaded_kick_snare kick_snare sequential_playlist"
proof -
  have c: "covers kick_snare ((0, 0), ''K'') b \<longleftrightarrow> b = 0"
          "covers kick_snare ((Suc 0, Suc 0), ''S'') b \<longleftrightarrow> b = Suc 0" for b
    by (auto simp: covers_def kick_snare_def find_pattern_Cons)
  have s: "export_samplers kick_snare = [''kick'', ''snare'']"
    by (simp add: export_samplers_def kick_snare_def one_shot_def truthy_def)
  have d: "distinct (map fst sequential_playlist)"
    by (simp add: sequential_playlist_def)
  have t: "\<forall>e\<in>set sequential_playlist. fst (fst e) < 32 \<and> snd e \<noteq> []"
    by (simp add: sequential_playlist_def)
  have pw: "\<forall>p\<in>set kick_snare. 16 dvd pat_length p
          \<and> (\<forall>c\<in>set (channels p).
                (case ch_notes c of None \<Rightarrow> True | Some ns \<Rightarrow> ns = [])
              \<and> (\<not> truthy (isAudioClipChannel c) \<longrightarrow>
                    pat_length p \<le> length (steps c)
                  \<and> (loaded_kick_snare (sample_name (sample c))
                       \<longleftrightarrow> sample_name (sample c) \<in> set (export_samplers kick_snare))))"
    unfolding s by (simp add: kick_snare_def one_shot_def truthy_def loaded_kick_snare_def)
  have sc: "\<forall>e1\<in>set sequential_playlist. \<forall>e2\<in>set sequential_playlist. \<forall>b.
           covers kick_snare e1 b \<and> covers kick_snare e2 b \<longrightarrow> e1 = e2"
    by (simp add: sequential_playlist_def c)
  show ?thesis unfolding song_wellformed_def using d t pw sc by blast
qed

lemma kick_snare_ends: "ends_within_song kick_snare sequential_playlist"
  by (auto simp: ends_within_song_def sequential_playlist_def kick_snare_def find_pattern_Cons
        songLengthSteps_def)

lemma kick_snare_step_17:
  "attacks (liveSongStep loaded_kick_snare 120 (1 / 2) kick_snare sequential_playlist 17)
     = [TriggerAttack ''snare'' (69 / 32), TriggerAttack ''snare'' (69 / 32 + 1 / 24),
        TriggerAttack ''snare'' (69 / 32 + 2 / 24)]"
  by code_simp

lemma export_agrees_without_overlap_example:
  "song_wellformed loaded_kick_snare kick_snare sequential_playlist
   \<and> (0::real) < 120 \<and> (1 / 100 :: real) < 1 / 2
   \<and> (17::nat) < songLengthSteps
   \<and> ends_within_song kick_snare sequential_playlist
   \<and> exportAtStep (renderSongToBuffer kick_snare sequential_playlist [] 120 (1 / 2)) 17
        = [TriggerAttack ''snare'' (69 / 32), TriggerAttack ''snare'' (69 / 32 + 1 / 24),
           TriggerAttack ''snare'' (69 / 32 + 2 / 24)]
   \<and> exportAtStep (renderSongToBuffer kick_snare sequential_playlist [] 120 (1 / 2)) 2000
        = attacks (liveSongStep loaded_kick_snare 120 (1 / 2) kick_snare sequential_playlist 2000)"
proof -
  have a: "(0::real) < 120" "(1 / 2 :: real) \<le> 0 \<or> (1 / 100 :: real) < 1 / 2" by simp_all
  have l: "(17::nat) < songLengthSteps" by (simp add: songLengthSteps_def)
  note T = export_agrees_without_overlap[OF kick_snare_wellformed a, where step = 17 and audioClips = "[]"]
  from T l have "exportAtStep (renderSongToBuffer kick_snare sequential_playlist [] 120 (1 / 2)) 17
        = attacks (liveSongStep loaded_kick_snare 120 (1 / 2) kick_snare sequential_playlist 17)"
    by blast
  moreover from T kick_snare_ends
  have "exportAtStep (renderSongToBuffer kick_snare sequential_playlist [] 120 (1 / 2)) 2000
        = attacks (liveSongStep loaded_kick_snare 120 (1 / 2) kick_snare sequential_playlist 2000)"
    by blast
  ultimately show ?thesis
    using kick_snare_wellformed kick_snare_ends l kick_snare_step_17 by simp
qed

text \<open>
  Claim C6, evaluated at swing 0.005 and 120 bpm: the swing set on the live transport is 0 and
  the roll on step 3 is triggered at 3/8 s, while both exports schedule it 1/3200 s later, the
  swing delay of an odd step.
\<close>

theorem export_swing_below_threshold:
  "transportSwing (1 / 200) = 0
   \<and> attacks (liveSongStep loaded_kick_snare 120 (1 / 200) kick_snare sequential_playlist 3)
       = [TriggerAttack ''kick'' (3 / 8), TriggerAttack ''kick'' (3 / 8 + 1 / 16)]
   \<and> exportAtStep (exportPatternToWav (kick_snare ! 0) 120 (1 / 200)) 3
       = [TriggerAttack ''kick'' (3 / 8 + 1 / 3200), TriggerAttack ''kick'' (3 / 8 + 1 / 3200 + 1 / 16)]
   \<and> exportAtStep (renderSongToBuffer kick_snare sequential_playlist [] 120 (1 / 200)) 3
       = [TriggerAttack ''kick'' (3 / 8 + 1 / 3200), TriggerAttack ''kick'' (3 / 8 + 1 / 3200 + 1 / 16)]"
  by code_simp

text \<open>
  Three more ways in which export and live playback part: the export plays the steps of a
  channel that has piano-roll notes and the live scheduler does not; the live scheduler wraps
  around a steps array shorter than the pattern and the export does not; the live scheduler
  releases the sampler of a channel that cuts itself before each hit and the export does not.
\<close>

lemma export_plays_channels_with_notes:
  "attacks (liveSongStep loaded_kick_snare 120 0
      (with_channel ((one_shot ''k1'' ''kick'' (replicate 16 (Some 1)))
          \<lparr>ch_notes := Some [\<lparr>note_id = ''n'', pitch = 60, start = 0, duration = 1, velocity = 1\<rparr>]\<rparr>))
      [((0, 0), ''K'')] 0) = []
   \<and> exportAtStep (renderSongToBuffer
      (with_channel ((one_shot ''k1'' ''kick'' (replicate 16 (Some 1)))
          \<lparr>ch_notes := Some [\<lparr>note_id = ''n'', pitch = 60, start = 0, duration = 1, velocity = 1\<rparr>]\<rparr>))
      [((0, 0), ''K'')] [] 120 0) 0 = [TriggerAttack ''kick'' 0]"
  by code_simp

lemma live_wraps_short_steps:
  "attacks (liveSongStep loaded_kick_snare 120 0
      (with_channel (one_shot ''k1'' ''kick'' [Some 1, Some 0])) [((0, 0), ''K'')] 2)
     = [TriggerAttack ''kick'' (1 / 4)]
   \<and> exportAtStep (renderSongToBuffer
      (with_channel (one_shot ''k1'' ''kick'' [Some 1, Some 0])) [((0, 0), ''K'')] [] 120 0) 2 = []"
  by code_simp

lemma live_releases_cut_channels:
  "liveSongStep loaded_kick_snare 120 0
      (with_channel ((one_shot ''k1'' ''kick'' (replicate 16 (Some 1)))\<lparr>cutItself := True\<rparr>))
      [((0, 0), ''K'')] 0 = [ReleaseAll ''kick'' 0, TriggerAttack ''kick'' 0]
   \<and> exportAtStep (renderSongToBuffer
      (with_channel ((one_shot ''k1'' ''kick'' (replicate 16 (Some 1)))\<lparr>cutItself := True\<rparr>))
      [((0, 0), ''K'')] [] 120 0) 0 = [TriggerAttack ''kick'' 0]"
  by code_simp

end
